theory Spec2Isabelle
  imports Complex_Main
begin

section \<open>TBFSBS: a text format for biological sequences (parse.py)\<close>

text \<open>
  The development embeds \<^verbatim>\<open>parse.py\<close>: the class \<^verbatim>\<open>TBFSBS_Record\<close>, the container
  \<^verbatim>\<open>TBFSBS\<close> with \<^verbatim>\<open>parse\<close> and \<^verbatim>\<open>write\<close>, and the parts of the Python runtime that
  these methods call (\<^verbatim>\<open>str.split\<close>, \<^verbatim>\<open>str.rstrip\<close>, \<^verbatim>\<open>float\<close>, \<^verbatim>\<open>round\<close>,
  \<^verbatim>\<open>str.format\<close>, \<^verbatim>\<open>textwrap.fill\<close>, iteration over a text file).

  A Python \<^verbatim>\<open>str\<close> is modelled as a \<^typ>\<open>string\<close>, one \<^typ>\<open>char\<close> per code point, which
  covers the code points below 256. A text file is modelled by its decoded content, and
  the text given to \<^verbatim>\<open>output_file.write\<close> is the result of \<^verbatim>\<open>write\<close>. A raised exception
  is a value of the type \<open>error\<close>.
\<close>

subsection \<open>Exceptions\<close>

datatype error =
    IndexError
  | UnboundLocalError string
  | TypeError
  | AttributeError
  | ValueError

subsection \<open>Python strings\<close>

text \<open>\<^verbatim>\<open>str.isspace\<close> on one character: the whitespace code points below 256.\<close>

definition isspace :: "char \<Rightarrow> bool" where
  "isspace c \<longleftrightarrow>
     c \<in> {CHR 0x09, CHR 0x0A, CHR 0x0B, CHR 0x0C, CHR 0x0D, CHR 0x1C, CHR 0x1D, CHR 0x1E,
          CHR 0x1F, CHR 0x20, CHR 0x85, CHR 0xA0}"

text \<open>
  \<^verbatim>\<open>str.split()\<close> without arguments: the maximal runs of non-whitespace characters.
  \<open>split_from cur s\<close> scans \<open>s\<close> with the token \<open>cur\<close> under construction.
\<close>

fun split_from :: "string \<Rightarrow> string \<Rightarrow> string list" where
  "split_from cur [] = (if cur = [] then [] else [cur])"
| "split_from cur (c # cs) =
     (if isspace c then (if cur = [] then split_from [] cs else cur # split_from [] cs)
      else split_from (cur @ [c]) cs)"

definition split :: "string \<Rightarrow> string list" where
  "split s = split_from [] s"

text \<open>\<^verbatim>\<open>str.rstrip()\<close> and \<^verbatim>\<open>str.strip()\<close> without arguments.\<close>

definition rstrip :: "string \<Rightarrow> string" where
  "rstrip s = rev (dropWhile isspace (rev s))"

definition strip :: "string \<Rightarrow> string" where
  "strip s = rstrip (dropWhile isspace s)"

text \<open>\<^verbatim>\<open>row.startswith("%")\<close>.\<close>

fun startswith_percent :: "string \<Rightarrow> bool" where
  "startswith_percent [] = False"
| "startswith_percent (c # cs) = (c = CHR ''%'')"

text \<open>\<^verbatim>\<open>sep.join(xs)\<close>.\<close>

fun join :: "string \<Rightarrow> string list \<Rightarrow> string" where
  "join sep [] = []"
| "join sep [x] = x"
| "join sep (x # y # ys) = x @ sep @ join sep (y # ys)"

text \<open>
  Reading a file opened in text mode with the default \<^verbatim>\<open>newline=None\<close>: the line ends
  \<^verbatim>\<open>\r\n\<close> and \<^verbatim>\<open>\r\<close> are translated to \<^verbatim>\<open>\n\<close>, and iterating over the file yields the
  lines with their terminating \<^verbatim>\<open>\n\<close> (the last line may lack it).
\<close>

fun universal_newlines :: "string \<Rightarrow> string" where
  "universal_newlines [] = []"
| "universal_newlines [c] = (if c = CHR 0x0D then [CHR 0x0A] else [c])"
| "universal_newlines (c # d # cs) =
     (if c = CHR 0x0D then
        (if d = CHR 0x0A then CHR 0x0A # universal_newlines cs
         else CHR 0x0A # universal_newlines (d # cs))
      else c # universal_newlines (d # cs))"

fun lines_from :: "string \<Rightarrow> string \<Rightarrow> string list" where
  "lines_from cur [] = (if cur = [] then [] else [cur])"
| "lines_from cur (c # cs) =
     (if c = CHR 0x0A then (cur @ [c]) # lines_from [] cs else lines_from (cur @ [c]) cs)"

definition file_rows :: "string \<Rightarrow> string list" where
  "file_rows content = lines_from [] (universal_newlines content)"

text \<open>Decimal digits, and \<^verbatim>\<open>str(n)\<close> of an integer.\<close>

definition isdigit :: "char \<Rightarrow> bool" where
  "isdigit c \<longleftrightarrow> c \<in> set ''0123456789''"

definition digit_val :: "char \<Rightarrow> int" where
  "digit_val c = int (of_char c) - 48"

definition digit_char :: "int \<Rightarrow> char" where
  "digit_char d = char_of (48 + d)"

function str_nat :: "int \<Rightarrow> string" where
  "str_nat n = (if n < 10 then [digit_char n] else str_nat (n div 10) @ [digit_char (n mod 10)])"
  by pat_completeness auto
termination
  by (relation "measure nat") auto

declare str_nat.simps [simp del]

definition str_int :: "int \<Rightarrow> string" where
  "str_int n = (if n < 0 then CHR ''-'' # str_nat (- n) else str_nat n)"

subsection \<open>Python floats\<close>

text \<open>
  A Python \<^verbatim>\<open>float\<close> is an IEEE 754 binary64 value. \<open>Finite s m e\<close> is the value
  \<open>(-1)\<^sup>s \<sqdot> m \<sqdot> 2\<^sup>e\<close> in its canonical form: \<open>0 \<le> m < 2\<^sup>5\<^sup>3\<close>, \<open>-1074 \<le> e \<le> 971\<close>, and
  \<open>2\<^sup>5\<^sup>2 \<le> m\<close> unless \<open>e = -1074\<close> (the subnormal numbers and the two zeros).
\<close>

datatype pyfloat = Finite bool int int | Infinity bool | NaN

fun float_value :: "pyfloat \<Rightarrow> rat option" where
  "float_value (Finite s m e) = Some ((if s then - 1 else 1) * of_int m * 2 powi e)"
| "float_value (Infinity s) = None"
| "float_value NaN = None"

text \<open>Truth value of a float: every float but the two zeros is true.\<close>

fun float_bool :: "pyfloat \<Rightarrow> bool" where
  "float_bool (Finite s m e) = (m \<noteq> 0)"
| "float_bool (Infinity s) = True"
| "float_bool NaN = True"

function bit_length :: "int \<Rightarrow> int" where
  "bit_length n = (if n \<le> 0 then 0 else 1 + bit_length (n div 2))"
  by pat_completeness auto
termination
  by (relation "measure nat") auto

declare bit_length.simps [simp del]

text \<open>\<open>round_half_even a b\<close>: the integer nearest to \<open>a / b\<close>, ties to the even one.\<close>

definition round_half_even :: "int \<Rightarrow> int \<Rightarrow> int" where
  "round_half_even a b =
     (let q = a div b; r = a mod b
      in if 2 * r < b then q
         else if b < 2 * r then q + 1
         else if even q then q else q + 1)"

definition scaled_round :: "int \<Rightarrow> int \<Rightarrow> int \<Rightarrow> int" where
  "scaled_round n d e =
     (if 0 \<le> e then round_half_even n (d * 2 ^ nat e)
      else round_half_even (n * 2 ^ nat (- e)) d)"

text \<open>
  \<open>round_to_double s n d\<close>: the binary64 value nearest to \<open>(-1)\<^sup>s \<sqdot> n / d\<close>
  (\<open>0 \<le> n\<close>, \<open>0 < d\<close>), ties to even, overflow to infinity: the conversion that
  \<^verbatim>\<open>float(str)\<close> performs on a decimal numeral.
\<close>

definition round_to_double :: "bool \<Rightarrow> int \<Rightarrow> int \<Rightarrow> pyfloat" where
  "round_to_double s n d =
     (if n = 0 then Finite s 0 (- 1074)
      else
        let b = bit_length n - bit_length d;
            l = (if 0 \<le> b then (if d * 2 ^ nat b \<le> n then b else b - 1)
                 else (if d \<le> n * 2 ^ nat (- b) then b else b - 1));
            e = max (l - 52) (- 1074);
            m = scaled_round n d e;
            e' = (if m = 2 ^ 53 then e + 1 else e);
            m' = (if m = 2 ^ 53 then 2 ^ 52 else m)
        in if 971 < e' then Infinity s else Finite s m' e')"

text \<open>\<open>decimal_to_double s D x\<close>: the float nearest to \<open>(-1)\<^sup>s \<sqdot> D \<sqdot> 10\<^sup>x\<close>.\<close>

definition decimal_to_double :: "bool \<Rightarrow> int \<Rightarrow> int \<Rightarrow> pyfloat" where
  "decimal_to_double s D x =
     (if 0 \<le> x then round_to_double s (D * 10 ^ nat x) 1
      else round_to_double s D (10 ^ nat (- x)))"

subsubsection \<open>\<^verbatim>\<open>float(str)\<close>\<close>

definition digits_value :: "string \<Rightarrow> int" where
  "digits_value ds = foldl (\<lambda>a c. 10 * a + digit_val c) 0 ds"

text \<open>
  Underscores in a numeral are accepted between two digits only, and are removed.
  \<open>prev\<close> is the character before the one examined.
\<close>

fun remove_underscores :: "char option \<Rightarrow> string \<Rightarrow> string option" where
  "remove_underscores prev [] = (if prev = Some (CHR ''_'') then None else Some [])"
| "remove_underscores prev (c # cs) =
     (if c = CHR ''_'' then
        (case prev of
           None \<Rightarrow> None
         | Some p \<Rightarrow> if isdigit p then remove_underscores (Some c) cs else None)
      else if prev = Some (CHR ''_'') \<and> \<not> isdigit c then None
      else map_option ((#) c) (remove_underscores (Some c) cs))"

definition lower :: "char \<Rightarrow> char" where
  "lower c =
     (if c \<in> set ''ABCDEFGHIJKLMNOPQRSTUVWXYZ'' then char_of (of_char c + (32::nat)) else c)"

text \<open>An optional sign: the flag is true for \<^verbatim>\<open>-\<close>.\<close>

fun take_sign :: "string \<Rightarrow> bool \<times> string" where
  "take_sign [] = (False, [])"
| "take_sign (c # cs) =
     (if c = CHR ''-'' then (True, cs) else if c = CHR ''+'' then (False, cs) else (False, c # cs))"

text \<open>
  The exponent part of a numeral, \<^verbatim>\<open>e\<close> or \<^verbatim>\<open>E\<close>, an optional sign and at least one
  digit; the empty string is the exponent 0.
\<close>

definition parse_exponent :: "string \<Rightarrow> int option" where
  "parse_exponent s =
     (case s of
        [] \<Rightarrow> Some 0
      | c # cs \<Rightarrow>
          if c = CHR ''e'' \<or> c = CHR ''E'' then
            (let (neg, ds) = take_sign cs
             in if ds \<noteq> [] \<and> list_all isdigit ds
                then Some (if neg then - digits_value ds else digits_value ds)
                else None)
          else None)"

text \<open>
  An unsigned decimal numeral: digits, an optional point and digits, with at least one
  digit before or after the point, then an optional exponent. The result \<open>(D, x)\<close> stands
  for \<open>D \<sqdot> 10\<^sup>x\<close>.
\<close>

definition parse_decimal :: "string \<Rightarrow> (int \<times> int) option" where
  "parse_decimal s =
     (let ip = takeWhile isdigit s; r = dropWhile isdigit s;
          (fp, r') = (case r of
                        [] \<Rightarrow> ([], [])
                      | c # cs \<Rightarrow> if c = CHR ''.'' then (takeWhile isdigit cs, dropWhile isdigit cs)
                                  else ([], r))
      in if ip = [] \<and> fp = [] then None
         else case parse_exponent r' of
                None \<Rightarrow> None
              | Some x \<Rightarrow> Some (digits_value (ip @ fp), x - int (length fp)))"

text \<open>
  \<^verbatim>\<open>float(s)\<close> for a string \<open>s\<close>; \<open>None\<close> is \<^verbatim>\<open>ValueError\<close>. The ASCII whitespace and the
  whitespace code points above 127 are stripped from both ends.
\<close>

definition float_space :: "char \<Rightarrow> bool" where
  "float_space c \<longleftrightarrow>
     c \<in> {CHR 0x09, CHR 0x0A, CHR 0x0B, CHR 0x0C, CHR 0x0D, CHR 0x20, CHR 0x85, CHR 0xA0}"

definition float_of_str :: "string \<Rightarrow> pyfloat option" where
  "float_of_str s =
     (let t = rev (dropWhile float_space (rev (dropWhile float_space s)))
      in case remove_underscores None t of
           None \<Rightarrow> None
         | Some u \<Rightarrow>
             let (neg, body) = take_sign u; w = map lower body
             in if w = ''inf'' \<or> w = ''infinity'' then Some (Infinity neg)
                else if w = ''nan'' then Some NaN
                else case parse_decimal body of
                       None \<Rightarrow> None
                     | Some (D, x) \<Rightarrow> Some (decimal_to_double neg D x))"

subsubsection \<open>\<^verbatim>\<open>repr\<close> of a float\<close>

text \<open>The exact value \<open>m \<sqdot> 2\<^sup>e\<close> as a fraction of two integers.\<close>

definition fraction :: "int \<Rightarrow> int \<Rightarrow> int \<times> int" where
  "fraction m e = (if 0 \<le> e then (m * 2 ^ nat e, 1) else (m, 2 ^ nat (- e)))"

text \<open>
  \<open>decimal_point n d\<close>: the integer \<open>k\<close> with \<open>10\<^sup>k\<^sup>-\<^sup>1 \<le> n / d < 10\<^sup>k\<close>, for \<open>0 < n\<close> and
  \<open>0 < d\<close>.
\<close>

definition decimal_point :: "int \<Rightarrow> int \<Rightarrow> int" where
  "decimal_point n d =
     (if d \<le> n then int (length (str_nat (n div d)))
      else 1 - int (length (str_nat ((d - 1) div n))))"

text \<open>
  The two decimals of \<open>p\<close> significant digits next to \<open>n / d\<close>, the nearer one first.
  A candidate \<open>(D, x)\<close> stands for \<open>D \<sqdot> 10\<^sup>x\<close>.
\<close>

definition candidates :: "int \<Rightarrow> int \<Rightarrow> int \<Rightarrow> (int \<times> int) list" where
  "candidates n d p =
     (let x = decimal_point n d - p;
          (a, b) = (if 0 \<le> x then (n, d * 10 ^ nat x) else (n * 10 ^ nat (- x), d));
          lo = a div b;
          hi = lo + 1;
          near = round_half_even a b
      in if near = lo then [(lo, x), (hi, x)] else [(hi, x), (lo, x)])"

text \<open>
  The shortest decimal that converts back to the float \<open>Finite s m e\<close> (\<open>0 < m\<close>), and
  the nearest one among the shortest; 17 digits always suffice. \<^verbatim>\<open>repr\<close> prints its digits
  without the trailing zeros.
\<close>

definition shortest_decimal :: "int \<Rightarrow> int \<Rightarrow> int \<times> int" where
  "shortest_decimal m e =
     (let (n, d) = fraction m e;
          cs = concat (map (candidates n d) [1 ..< 18])
      in case List.find (\<lambda>(D, x). 0 < D \<and> decimal_to_double False D x = Finite False m e) cs of
           Some c \<Rightarrow> c
         | None \<Rightarrow> hd (candidates n d 17))"

text \<open>
  The layout of \<^verbatim>\<open>repr\<close>: with the digits \<open>ds\<close> and the decimal point after the first
  \<open>k\<close> digits, the fixed notation for \<open>-4 < k \<le> 16\<close> and the exponent notation otherwise.
\<close>

definition format_repr :: "string \<Rightarrow> int \<Rightarrow> string" where
  "format_repr ds k =
     (if k \<le> - 4 \<or> 16 < k then
        (let x = k - 1;
             mant = (if length ds = 1 then ds else hd ds # CHR ''.'' # tl ds);
             xs = str_nat (abs x)
         in mant @ [CHR ''e'', if x < 0 then CHR ''-'' else CHR ''+''] @
            (if length xs < 2 then CHR ''0'' # xs else xs))
      else if k \<le> 0 then ''0.'' @ replicate (nat (- k)) (CHR ''0'') @ ds
      else if int (length ds) \<le> k then ds @ replicate (nat (k - int (length ds))) (CHR ''0'') @ ''.0''
      else take (nat k) ds @ CHR ''.'' # drop (nat k) ds)"

fun float_repr :: "pyfloat \<Rightarrow> string" where
  "float_repr NaN = ''nan''"
| "float_repr (Infinity s) = (if s then ''-inf'' else ''inf'')"
| "float_repr (Finite s m e) =
     (if s then ''-'' else '''') @
     (if m = 0 then ''0.0''
      else let (D, x) = shortest_decimal m e;
               ds = str_nat D
           in format_repr (rev (dropWhile (\<lambda>c. c = CHR ''0'') (rev ds))) (x + int (length ds)))"

subsubsection \<open>\<^verbatim>\<open>round(x, 1)\<close>\<close>

text \<open>
  The exact value is rounded to one decimal place, ties to even, and the decimal is
  converted back to a float; infinities and NaN round to themselves.
\<close>

fun round1 :: "pyfloat \<Rightarrow> pyfloat" where
  "round1 (Finite s m e) =
     (let (n, d) = fraction m e
      in decimal_to_double s (round_half_even (n * 10) d) (- 1))"
| "round1 (Infinity s) = Infinity s"
| "round1 NaN = NaN"

subsubsection \<open>Rounding to one decimal place, as the specification words it\<close>

text \<open>
  The specification of the summary: the target value rounded to one decimal place.
  \<open>nearest_even q\<close> is the integer nearest to \<open>q\<close>, the even one of the two when \<open>q\<close> lies
  halfway; \<open>one_decimal s N\<close> is the numeral of \<open>(-1)\<^sup>s \<sqdot> N / 10\<close> with one digit after the
  point. They do not come from the program, and are compared with \<^verbatim>\<open>round\<close> and \<^verbatim>\<open>repr\<close>.
\<close>

definition nearest_even :: "rat \<Rightarrow> int" where
  "nearest_even q =
     (let f = \<lfloor>q\<rfloor>; r = q - of_int f
      in if r < 1 / 2 then f else if 1 / 2 < r then f + 1 else if even f then f else f + 1)"

definition one_decimal :: "bool \<Rightarrow> int \<Rightarrow> string" where
  "one_decimal s N = (if s then ''-'' else '''') @ str_nat (N div 10) @ ''.'' @ str_nat (N mod 10)"

subsection \<open>\<^verbatim>\<open>TBFSBS_Record\<close>\<close>

text \<open>
  The four attributes of a record default to \<^verbatim>\<open>None\<close> in the constructor, so each is an
  option. The target value that \<^verbatim>\<open>parse\<close> stores is a float or \<^verbatim>\<open>None\<close>.
\<close>

record TBFSBS_Record =
  "identifier" :: "string option"
  target_value :: "pyfloat option"
  description :: "string option"
  sequence :: "string option"

text \<open>How \<^verbatim>\<open>str.format\<close> renders an attribute: \<^verbatim>\<open>None\<close> is printed as the word None.\<close>

definition format_str :: "string option \<Rightarrow> string" where
  "format_str v = (case v of None \<Rightarrow> ''None'' | Some s \<Rightarrow> s)"

definition format_float :: "pyfloat option \<Rightarrow> string" where
  "format_float v = (case v of None \<Rightarrow> ''None'' | Some x \<Rightarrow> float_repr x)"

text \<open>The truth value of the attribute \<^verbatim>\<open>target_value\<close>: \<^verbatim>\<open>None\<close> and the zeros are false.\<close>

definition truthy :: "pyfloat option \<Rightarrow> bool" where
  "truthy v = (case v of None \<Rightarrow> False | Some x \<Rightarrow> float_bool x)"

text \<open>
  \<^verbatim>\<open>TBFSBS_Record.__str__\<close>. \<^verbatim>\<open>len(self.sequence)\<close> raises \<^verbatim>\<open>TypeError\<close> when the sequence
  is \<^verbatim>\<open>None\<close>.
\<close>

definition record_str :: "TBFSBS_Record \<Rightarrow> error + string" where
  "record_str self =
     (let value = (if truthy (target_value self) then map_option round1 (target_value self)
                   else target_value self)
      in case sequence self of
           None \<Rightarrow> Inl TypeError
         | Some sq \<Rightarrow>
             Inr (''ID: '' @ format_str (identifier self) @ ''\<newline>'' @
                  ''Value: '' @ format_float value @ ''\<newline>'' @
                  ''Description: '' @ format_str (description self) @ ''\<newline>'' @
                  ''Sequence length: '' @ str_int (int (length sq)) @ ''\<newline>''))"

subsection \<open>The container \<^verbatim>\<open>TBFSBS\<close>\<close>

text \<open>The object holds one attribute, the list \<^verbatim>\<open>_list\<close> of its records.\<close>

type_synonym TBFSBS = "TBFSBS_Record list"

definition append :: "TBFSBS \<Rightarrow> TBFSBS_Record \<Rightarrow> TBFSBS" where
  "append self v = self @ [v]"

subsubsection \<open>\<^verbatim>\<open>parse\<close>\<close>

text \<open>
  The local variables of \<^verbatim>\<open>parse\<close>. \<open>header\<close> starts as the empty string and then holds
  the list of the tokens of the last header line; only its truth value is read, and the
  empty list stands for the empty string. The other four are unbound (\<open>None\<close>) until a
  header line assigns them.
\<close>

record frame =
  header :: "string list"
  iD :: "string option"
  var_target_value :: "pyfloat option option"
  var_description :: "string option"
  seq :: "string option"

definition initial_frame :: frame where
  "initial_frame =
     \<lparr>header = [], iD = None, var_target_value = None, var_description = None, seq = None\<rparr>"

text \<open>Reading a local variable: an unbound one raises \<^verbatim>\<open>UnboundLocalError\<close>.\<close>

definition load :: "string \<Rightarrow> 'a option \<Rightarrow> error + 'a" where
  "load name v = (case v of None \<Rightarrow> Inl (UnboundLocalError name) | Some x \<Rightarrow> Inr x)"

text \<open>
  \<^verbatim>\<open>TBFSBS_Record(iD, target_value, description, seq)\<close>: the four variables are read from
  left to right.
\<close>

definition make_record :: "frame \<Rightarrow> error + TBFSBS_Record" where
  "make_record f =
     (case load ''iD'' (iD f) of
        Inl e \<Rightarrow> Inl e
      | Inr i \<Rightarrow>
     (case load ''target_value'' (var_target_value f) of
        Inl e \<Rightarrow> Inl e
      | Inr t \<Rightarrow>
     (case load ''description'' (var_description f) of
        Inl e \<Rightarrow> Inl e
      | Inr d \<Rightarrow>
     (case load ''seq'' (seq f) of
        Inl e \<Rightarrow> Inl e
      | Inr sq \<Rightarrow>
          Inr \<lparr>identifier = Some i, target_value = t, description = Some d,
               sequence = Some sq\<rparr>))))"

text \<open>
  The \<^verbatim>\<open>try\<close> statement of a header line. \<^verbatim>\<open>header[2]\<close> raises \<^verbatim>\<open>IndexError\<close> when there
  are fewer than three tokens and \<^verbatim>\<open>float\<close> raises \<^verbatim>\<open>ValueError\<close> on a token that is no
  numeral; the bare \<^verbatim>\<open>except\<close> catches both.
\<close>

definition value_and_description :: "string list \<Rightarrow> pyfloat option \<times> string" where
  "value_and_description hdr =
     (if length hdr \<le> 2 then (None, join '' '' (drop 2 hdr))
      else case float_of_str (hdr ! 2) of
             Some v \<Rightarrow> (Some v, join '' '' (drop 3 hdr))
           | None \<Rightarrow> (None, join '' '' (drop 2 hdr)))"

text \<open>
  One iteration of the loop over the rows of the file. The result is the exception
  raised or the frame after the iteration, together with the collection as the
  iteration leaves it.
\<close>

definition parse_row :: "string \<Rightarrow> frame \<Rightarrow> TBFSBS \<Rightarrow> (error + frame) \<times> TBFSBS" where
  "parse_row row f self =
     (if startswith_percent row then
        (case (if header f \<noteq> [] then map_sum id (append self) (make_record f) else Inr self) of
           Inl e \<Rightarrow> (Inl e, self)
         | Inr self' \<Rightarrow>
             let hdr = split row
             in if length hdr \<le> 1 then (Inl IndexError, self')
                else
                  let (t, d) = value_and_description hdr
                  in (Inr \<lparr>header = hdr, iD = Some (hdr ! 1), var_target_value = Some t,
                           var_description = Some d, seq = Some ''''\<rparr>, self'))
      else
        (case load ''seq'' (seq f) of
           Inl e \<Rightarrow> (Inl e, self)
         | Inr sq \<Rightarrow> (Inr (f\<lparr>seq := Some (sq @ rstrip row)\<rparr>), self)))"

fun parse_rows :: "string list \<Rightarrow> frame \<Rightarrow> TBFSBS \<Rightarrow> (error + frame) \<times> TBFSBS" where
  "parse_rows [] f self = (Inr f, self)"
| "parse_rows (row # rows) f self =
     (case parse_row row f self of
        (Inl e, self') \<Rightarrow> (Inl e, self')
      | (Inr f', self') \<Rightarrow> parse_rows rows f' self')"

text \<open>
  \<^verbatim>\<open>parse\<close> on the content of the input file. The \<^verbatim>\<open>else\<close> clause of the \<^verbatim>\<open>for\<close> loop runs
  when the loop ends without \<^verbatim>\<open>break\<close>, that is whenever no row raised. The result is the
  exception raised, if any, and the collection as \<^verbatim>\<open>parse\<close> leaves it.
\<close>

definition parse :: "string \<Rightarrow> TBFSBS \<Rightarrow> error option \<times> TBFSBS" where
  "parse content self =
     (case parse_rows (file_rows content) initial_frame self of
        (Inl e, self') \<Rightarrow> (Some e, self')
      | (Inr f, self') \<Rightarrow>
          (case make_record f of
             Inl e \<Rightarrow> (Some e, self')
           | Inr r \<Rightarrow> (None, append self' r)))"

subsubsection \<open>\<^verbatim>\<open>extend\<close>\<close>

text \<open>
  \<^verbatim>\<open>extend\<close> with the records of another collection, or of any sequence of records
  that is not the collection itself.
\<close>

definition extend :: "TBFSBS \<Rightarrow> TBFSBS_Record list \<Rightarrow> TBFSBS" where
  "extend self vs = self @ vs"

subsection \<open>\<^verbatim>\<open>textwrap.fill\<close>\<close>

text \<open>
  \<^verbatim>\<open>write\<close> wraps a sequence with \<^verbatim>\<open>textwrap.fill(record.sequence, wrap)\<close>, that is with a
  \<^verbatim>\<open>TextWrapper\<close> whose options have their default values: tabs are expanded, whitespace
  is replaced by spaces, the text is split into chunks at whitespace and after the
  hyphens of compound words, whitespace at the start and the end of a line is dropped,
  and a chunk longer than the width is broken.

  The width is the command line option \<^verbatim>\<open>--wrap\<close>: an integer, or the float infinity
  when the option is absent or has no value.
\<close>

datatype width = Width int | Unbounded

fun le_width :: "int \<Rightarrow> width \<Rightarrow> bool" where
  "le_width n (Width w) = (n \<le> w)"
| "le_width n Unbounded = True"

fun width_le :: "width \<Rightarrow> int \<Rightarrow> bool" where
  "width_le (Width w) n = (w \<le> n)"
| "width_le Unbounded n = False"

text \<open>\<^verbatim>\<open>str.expandtabs(8)\<close>; \<open>j\<close> is the column of the next character.\<close>

fun expandtabs_from :: "nat \<Rightarrow> string \<Rightarrow> string" where
  "expandtabs_from j [] = []"
| "expandtabs_from j (c # cs) =
     (if c = CHR 0x09 then replicate (8 - j mod 8) CHR '' '' @ expandtabs_from (j + (8 - j mod 8)) cs
      else if c = CHR 0x0A \<or> c = CHR 0x0D then c # expandtabs_from 0 cs
      else c # expandtabs_from (j + 1) cs)"

text \<open>The characters of \<^verbatim>\<open>textwrap._whitespace\<close>.\<close>

definition tw_whitespace :: "char \<Rightarrow> bool" where
  "tw_whitespace c \<longleftrightarrow> c \<in> {CHR 0x09, CHR 0x0A, CHR 0x0B, CHR 0x0C, CHR 0x0D, CHR 0x20}"

definition munge_whitespace :: "string \<Rightarrow> string" where
  "munge_whitespace text =
     map (\<lambda>c. if tw_whitespace c then CHR '' '' else c) (expandtabs_from 0 text)"

text \<open>
  The character classes of the regular expression \<^verbatim>\<open>wordsep_re\<close>, on the code points
  below 256: \<^verbatim>\<open>\w\<close> (letters, digits and the underscore), \<^verbatim>\<open>[^\d\W]\<close> and
  \<^verbatim>\<open>[\w!"'&.,?]\<close>.
\<close>

definition word_char :: "char \<Rightarrow> bool" where
  "word_char c \<longleftrightarrow>
     (let n = (of_char c :: nat)
      in (48 \<le> n \<and> n \<le> 57) \<or> (65 \<le> n \<and> n \<le> 90) \<or> n = 95 \<or> (97 \<le> n \<and> n \<le> 122) \<or>
         n = 170 \<or> n = 178 \<or> n = 179 \<or> n = 181 \<or> n = 185 \<or> n = 186 \<or>
         (188 \<le> n \<and> n \<le> 190) \<or> (192 \<le> n \<and> n \<le> 214) \<or> (216 \<le> n \<and> n \<le> 246) \<or>
         (248 \<le> n \<and> n \<le> 255))"

definition letter :: "char \<Rightarrow> bool" where
  "letter c \<longleftrightarrow> word_char c \<and> \<not> isdigit c"

definition word_punct :: "char \<Rightarrow> bool" where
  "word_punct c \<longleftrightarrow> word_char c \<or> c \<in> set ''!\"'' \<or> c = CHR 0x27 \<or> c \<in> set ''&.,?''"

definition hyphen :: "char \<Rightarrow> bool" where
  "hyphen c \<longleftrightarrow> c = CHR ''-''"

text \<open>
  The assertions of \<^verbatim>\<open>wordsep_re\<close>. \<open>bef\<close> is the text before the position, last
  character first, and \<open>s\<close> the text after it.
  \<^item> \<open>punct_before\<close>: \<^verbatim>\<open>(?<=[\w!"'&.,?])\<close>;
  \<^item> \<open>emdash_ahead\<close>: two hyphens or more and then a word character, \<^verbatim>\<open>-{2,}(?=\w)\<close>;
  \<^item> \<open>hyphen_behind\<close>, after a hyphen: \<^verbatim>\<open>(?<=[^\d\W]{2}-)\<close> or \<^verbatim>\<open>(?<=[^\d\W]-[^\d\W]-)\<close>;
  \<^item> \<open>hyphen_ahead\<close>: \<^verbatim>\<open>(?=[^\d\W]-?[^\d\W])\<close>.
\<close>

fun punct_before :: "string \<Rightarrow> bool" where
  "punct_before [] = False"
| "punct_before (b # bs) = word_punct b"

definition emdash_ahead :: "string \<Rightarrow> bool" where
  "emdash_ahead s \<longleftrightarrow>
     2 \<le> length (takeWhile hyphen s) \<and>
     (case dropWhile hyphen s of [] \<Rightarrow> False | x # xs \<Rightarrow> word_char x)"

fun hyphen_behind :: "string \<Rightarrow> bool" where
  "hyphen_behind (b1 # b2 # bs) =
     (letter b1 \<and> (letter b2 \<or> (hyphen b2 \<and> (case bs of [] \<Rightarrow> False | b3 # r \<Rightarrow> letter b3))))"
| "hyphen_behind bs = False"

fun hyphen_ahead :: "string \<Rightarrow> bool" where
  "hyphen_ahead (x # y # s) =
     (letter x \<and> (letter y \<or> (hyphen y \<and> (case s of [] \<Rightarrow> False | z # r \<Rightarrow> letter z))))"
| "hyphen_ahead s = False"

text \<open>
  The third alternative of \<^verbatim>\<open>wordsep_re\<close>, a word: the fewest characters that are no
  whitespace up to and including the hyphen of a compound word, or up to whitespace,
  the end of the text or an em-dash. \<open>word_scan bef s\<close> is the number of characters of
  \<open>s\<close> that the match takes beyond those already taken, which are at the head of \<open>bef\<close>.
\<close>

fun word_scan :: "string \<Rightarrow> string \<Rightarrow> nat" where
  "word_scan bef [] = 0"
| "word_scan bef (c # cs) =
     (if hyphen c \<and> hyphen_behind bef \<and> hyphen_ahead cs then 1
      else if tw_whitespace c then 0
      else if punct_before bef \<and> emdash_ahead (c # cs) then 0
      else 1 + word_scan (c # bef) cs)"

text \<open>
  The length of the match of \<^verbatim>\<open>wordsep_re\<close> at the start of a non-empty \<open>s\<close>: a run of
  whitespace, or an em-dash between words, or a word. The expression matches at every
  position, so \<^verbatim>\<open>wordsep_re.split\<close> cuts the text into consecutive matches.
\<close>

fun chunk_len :: "string \<Rightarrow> string \<Rightarrow> nat" where
  "chunk_len bef [] = 0"
| "chunk_len bef (c # cs) =
     (if tw_whitespace c then length (takeWhile tw_whitespace (c # cs))
      else if punct_before bef \<and> emdash_ahead (c # cs) then length (takeWhile hyphen (c # cs))
      else 1 + word_scan (c # bef) cs)"

lemma chunk_len_pos: "0 < chunk_len bef (c # cs)"
  by (auto simp: emdash_ahead_def)

lemma chunk_len_le: "chunk_len bef s \<le> length s"
proof -
  have scan: "word_scan b t \<le> length t" for b t
    by (induction t arbitrary: b) auto
  have tw: "length (takeWhile P t) \<le> length t" for P and t :: string
    by (induction t) auto
  show ?thesis
  proof (cases s)
    case Nil
    then show ?thesis by simp
  next
    case (Cons c cs)
    then show ?thesis
      using scan [of "c # bef" cs] tw [of tw_whitespace "c # cs"] tw [of hyphen "c # cs"]
      by (simp del: takeWhile.simps)
  qed
qed

function chunks_from :: "string \<Rightarrow> string \<Rightarrow> string list" where
  "chunks_from bef s =
     (if s = [] then []
      else take (chunk_len bef s) s #
           chunks_from (rev (take (chunk_len bef s) s) @ bef) (drop (chunk_len bef s) s))"
  by pat_completeness auto
termination
proof (relation "measure (\<lambda>(bef, s). length s)")
  show "wf (measure (\<lambda>(bef, s). length s))"
    by simp
next
  fix bef s :: string
  assume "s \<noteq> []"
  then obtain c cs where "s = c # cs"
    by (cases s) auto
  then show "((rev (take (chunk_len bef s) s) @ bef, drop (chunk_len bef s) s), (bef, s))
               \<in> measure (\<lambda>(bef, s). length s)"
    using chunk_len_pos [of bef c cs] by simp
qed

declare chunks_from.simps [simp del]

text \<open>\<^verbatim>\<open>_split_chunks\<close>: the chunks of the text after the whitespace is replaced.\<close>

definition split_chunks :: "string \<Rightarrow> string list" where
  "split_chunks text = chunks_from [] (munge_whitespace text)"

text \<open>\<^verbatim>\<open>chunk.strip() == ''\<close>: the chunk is empty or all whitespace.\<close>

definition blank :: "string \<Rightarrow> bool" where
  "blank chunk \<longleftrightarrow> list_all isspace chunk"

text \<open>
  The inner loop of \<^verbatim>\<open>_wrap_chunks\<close>: the chunks that fit are moved to the current
  line. The result is the line, its length and the chunks left.
\<close>

fun fit :: "width \<Rightarrow> string list \<Rightarrow> int \<Rightarrow> string list \<Rightarrow> string list \<times> int \<times> string list" where
  "fit w cur_line cur_len [] = (cur_line, cur_len, [])"
| "fit w cur_line cur_len (c # cs) =
     (if le_width (cur_len + int (length c)) w
      then fit w (cur_line @ [c]) (cur_len + int (length c)) cs
      else (cur_line, cur_len, c # cs))"

text \<open>
  \<^verbatim>\<open>chunk.rfind('-', 0, space_left)\<close>: the last index below \<open>space_left\<close> that holds a
  hyphen, or \<open>-1\<close>.
\<close>

definition rfind_hyphen :: "string \<Rightarrow> nat \<Rightarrow> int" where
  "rfind_hyphen chunk space_left =
     (case filter (\<lambda>i. hyphen (chunk ! i)) (rev [0 ..< min space_left (length chunk)]) of
        [] \<Rightarrow> - 1
      | i # rest \<Rightarrow> int i)"

text \<open>
  \<^verbatim>\<open>_handle_long_word\<close> for the first of the chunks left, which is longer than the
  width: as much of it as fits is put on the line, up to its last hyphen when there is
  one with another character before it. The result is the line and the chunks left.
\<close>

definition handle_long_word ::
    "string list \<Rightarrow> string list \<Rightarrow> int \<Rightarrow> int \<Rightarrow> string list \<times> string list" where
  "handle_long_word chunks cur_line cur_len w =
     (let space_left = (if w < 1 then 1 else w - cur_len);
          chunk = hd chunks;
          hy = rfind_hyphen chunk (nat space_left);
          end = (if space_left < int (length chunk) \<and> 0 < hy \<and>
                    (\<exists>c \<in> set (take (nat hy) chunk). \<not> hyphen c)
                 then hy + 1 else space_left)
      in (cur_line @ [take (nat end) chunk], drop (nat end) chunk # tl chunks))"

text \<open>
  The step of \<^verbatim>\<open>_wrap_chunks\<close> after the inner loop: when a chunk is left that is longer
  than the width, \<^verbatim>\<open>_handle_long_word\<close> breaks it. No chunk is longer than an unbounded
  width.
\<close>

definition break_long ::
    "width \<Rightarrow> string list \<Rightarrow> int \<Rightarrow> string list \<Rightarrow> string list \<times> string list" where
  "break_long w cur_line cur_len chunks =
     (case w of
        Width n \<Rightarrow>
          if chunks \<noteq> [] \<and> n < int (length (hd chunks))
          then handle_long_word chunks cur_line cur_len n
          else (cur_line, chunks)
      | Unbounded \<Rightarrow> (cur_line, chunks))"

text \<open>The last chunk of the line is dropped when it is all whitespace.\<close>

definition drop_blank :: "string list \<Rightarrow> string list" where
  "drop_blank cur_line =
     (if cur_line \<noteq> [] \<and> blank (last cur_line) then butlast cur_line else cur_line)"

text \<open>
  One pass of the outer loop of \<^verbatim>\<open>_wrap_chunks\<close>, for a non-empty list of chunks;
  \<open>started\<close> tells whether a line was produced before, in which case a first chunk of
  whitespace is dropped. The result is the chunks of the line and the chunks left.
\<close>

definition wrap_line :: "width \<Rightarrow> bool \<Rightarrow> string list \<Rightarrow> string list \<times> string list" where
  "wrap_line w started chunks =
     (case fit w [] 0 (if blank (hd chunks) \<and> started then tl chunks else chunks) of
        (cur_line, cur_len, chunks2) \<Rightarrow>
          (case break_long w cur_line cur_len chunks2 of
             (cur_line2, chunks3) \<Rightarrow> (drop_blank cur_line2, chunks3)))"

text \<open>The size of the work left: the characters and the number of the chunks.\<close>

definition work :: "string list \<Rightarrow> nat" where
  "work chunks = sum_list (map (\<lambda>c. Suc (length c)) chunks)"

text \<open>Each pass of the outer loop leaves less work, which is why the loop ends.\<close>

lemma work_Nil [simp]: "work [] = 0"
  by (simp add: work_def)

lemma work_Cons [simp]: "work (c # cs) = Suc (length c) + work cs"
  by (simp add: work_def)

lemma work_append [simp]: "work (xs @ ys) = work xs + work ys"
  by (simp add: work_def)

lemma fit_split:
  "fit w cl n cs = (cl', n', rest) \<Longrightarrow>
     \<exists>taken. cs = taken @ rest \<and> cl' = cl @ taken \<and> n' = n + int (length (concat taken))"
proof (induction cs arbitrary: cl n)
  case Nil
  then show ?case by simp
next
  case (Cons c cs)
  show ?case
  proof (cases "le_width (n + int (length c)) w")
    case True
    with Cons.prems have "fit w (cl @ [c]) (n + int (length c)) cs = (cl', n', rest)"
      by simp
    from Cons.IH [OF this] obtain taken where
      "cs = taken @ rest" "cl' = (cl @ [c]) @ taken"
      "n' = n + int (length c) + int (length (concat taken))"
      by blast
    then show ?thesis
      by (intro exI [of _ "c # taken"]) simp
  next
    case False
    with Cons.prems show ?thesis
      by (intro exI [of _ "[]"]) simp
  qed
qed

lemma fit_stops:
  "fit w cl n cs = (cl', n', c # rest) \<Longrightarrow> \<not> le_width (n' + int (length c)) w"
proof (induction cs arbitrary: cl n)
  case Nil
  then show ?case by simp
next
  case (Cons a cs)
  then show ?case
    by (cases "le_width (n + int (length a)) w") auto
qed

lemma fit_bound:
  "fit w cl n cs = (cl', n', rest) \<Longrightarrow> le_width n w \<Longrightarrow> le_width n' w"
proof (induction cs arbitrary: cl n)
  case Nil
  then show ?case by simp
next
  case (Cons a cs)
  then show ?case
    by (cases "le_width (n + int (length a)) w") auto
qed

lemma handle_long_word_snd:
  "\<exists>k. handle_long_word (c # cs) cl n m = (cl @ [take k c], drop k c # cs) \<and>
       (1 \<le> m \<longrightarrow> n < m \<longrightarrow> 1 \<le> k) \<and> (1 \<le> m \<longrightarrow> n \<le> m \<longrightarrow> int k \<le> m - n)"
proof -
  define sl where "sl = (if m < 1 then 1 else m - n)"
  define hy where "hy = rfind_hyphen c (nat sl)"
  define e where "e = (if sl < int (length c) \<and> 0 < hy \<and>
                  (\<exists>x \<in> set (take (nat hy) c). \<not> hyphen x)
               then hy + 1 else sl)"
  have r: "handle_long_word (c # cs) cl n m = (cl @ [take (nat e) c], drop (nat e) c # cs)"
    unfolding handle_long_word_def Let_def e_def hy_def sl_def
    by (simp only: list.sel)
  have "1 \<le> nat e" if "1 \<le> m" "n < m"
    using that by (auto simp: e_def sl_def)
  moreover have "hy < sl" if "0 < hy"
  proof -
    have "hy < int (min (nat sl) (length c))"
    proof (cases "filter (\<lambda>i. hyphen (c ! i)) (rev [0 ..< min (nat sl) (length c)])")
      case Nil
      then show ?thesis using that by (simp add: hy_def rfind_hyphen_def)
    next
      case (Cons i rest)
      then have "i \<in> set (filter (\<lambda>i. hyphen (c ! i)) (rev [0 ..< min (nat sl) (length c)]))"
        by simp
      then have "i < min (nat sl) (length c)" by simp
      moreover have "hy = int i" using Cons by (simp add: hy_def rfind_hyphen_def)
      ultimately show ?thesis by simp
    qed
    then show ?thesis using that by (cases "0 \<le> sl") (auto simp: min_def split: if_splits)
  qed
  then have "int (nat e) \<le> m - n" if "1 \<le> m" "n \<le> m"
    using that by (auto simp: e_def sl_def)
  ultimately show ?thesis using r by blast
qed

lemma break_long_rest:
  "snd (break_long w cl n chunks) = chunks \<or>
   (\<exists>k c cs m. chunks = c # cs \<and> w = Width m \<and> m < int (length c) \<and>
      snd (break_long w cl n chunks) = drop k c # cs \<and>
      (1 \<le> m \<longrightarrow> n < m \<longrightarrow> 1 \<le> k))"
proof (cases w)
  case Unbounded
  then show ?thesis by (simp add: break_long_def)
next
  case (Width m)
  show ?thesis
  proof (cases "chunks \<noteq> [] \<and> m < int (length (hd chunks))")
    case False
    then show ?thesis using Width by (auto simp add: break_long_def)
  next
    case True
    then obtain c cs where c: "chunks = c # cs" "m < int (length c)"
      by (cases chunks) auto
    from handle_long_word_snd [of c cs cl n m] obtain k where
      k: "handle_long_word (c # cs) cl n m = (cl @ [take k c], drop k c # cs)"
         "1 \<le> m \<longrightarrow> n < m \<longrightarrow> 1 \<le> k"
      by blast
    have "snd (break_long w cl n chunks) = drop k c # cs"
      using Width c k(1) by (simp add: break_long_def)
    with c Width k(2) show ?thesis by blast
  qed
qed

lemma break_long_work: "work (snd (break_long w cl n chunks)) \<le> work chunks"
  using break_long_rest [of w cl n chunks] by auto

lemma wrap_line_work:
  assumes "chunks \<noteq> []" and "\<not> width_le w 0"
  shows "work (snd (wrap_line w started chunks)) < work chunks"
proof -
  define chunks1 where "chunks1 = (if blank (hd chunks) \<and> started then tl chunks else chunks)"
  obtain cur_line cur_len chunks2 where f: "fit w [] 0 chunks1 = (cur_line, cur_len, chunks2)"
    by (cases "fit w [] 0 chunks1") auto
  from fit_split [OF f] obtain taken where
    t: "chunks1 = taken @ chunks2" "cur_line = taken" "cur_len = int (length (concat taken))"
    by auto
  have c1: "work chunks1 \<le> work chunks"
    using assms(1) by (cases chunks) (simp_all add: chunks1_def)
  have c1': "chunks1 = [] \<Longrightarrow> 0 < work chunks"
    using assms(1) by (cases chunks) simp_all
  define chunks3 where "chunks3 = snd (break_long w cur_line cur_len chunks2)"
  have res: "snd (wrap_line w started chunks) = chunks3"
    unfolding wrap_line_def chunks1_def [symmetric] f chunks3_def
    by (simp add: case_prod_beta)
  have le3: "work chunks3 \<le> work chunks2"
    unfolding chunks3_def by (rule break_long_work)
  have "work chunks3 < work chunks"
  proof (cases "taken = []")
    case False
    then have "work chunks2 < work chunks1"
      using t(1) by (cases taken) simp_all
    with le3 c1 show ?thesis by simp
  next
    case True
    then have z: "cur_len = 0" "chunks2 = chunks1" using t by simp_all
    show ?thesis
    proof (cases chunks1)
      case Nil
      with le3 z have "work chunks3 = 0" by simp
      with c1' [OF Nil] show ?thesis by simp
    next
      case (Cons c cs)
      have "fit w [] 0 (c # cs) = (cur_line, cur_len, c # cs)"
        using f z Cons by simp
      from fit_stops [OF this] z
      have nf: "\<not> le_width (int (length c)) w" by simp
      then obtain m where m: "w = Width m" "m < int (length c)"
        by (cases w) auto
      from assms(2) m have m1: "1 \<le> m" by simp
      have "chunks3 = snd (handle_long_word (c # cs) cur_line 0 m)"
        using m z Cons by (simp add: chunks3_def break_long_def)
      from break_long_rest [of w cur_line cur_len chunks2]
      have "chunks3 = chunks2 \<or> (\<exists>k. chunks3 = drop k c # cs \<and> 1 \<le> k)"
        unfolding chunks3_def [symmetric] using m m1 z Cons by auto
      moreover have "chunks3 \<noteq> chunks2"
      proof -
        have "chunks3 = snd (handle_long_word (c # cs) cur_line 0 m)"
          using m z Cons by (simp add: chunks3_def break_long_def)
        then obtain j where "chunks3 = drop j c # cs" "1 \<le> j"
          using m1 handle_long_word_snd [of c cs cur_line 0 m] by auto
        then have "length (hd chunks3) < length c"
          using m m1 by simp
        then show ?thesis using z Cons by auto
      qed
      ultimately obtain k where k: "chunks3 = drop k c # cs" "1 \<le> k"
        by blast
      then have "length (drop k c) < length c"
        using m m1 by simp
      then have "work chunks3 < work chunks1"
        using k Cons by simp
      with c1 show ?thesis by simp
    qed
  qed
  with res show ?thesis by simp
qed

text \<open>
  The outer loop of \<^verbatim>\<open>_wrap_chunks\<close>. It is entered with a positive width only, since
  \<^verbatim>\<open>_wrap_chunks\<close> raises \<^verbatim>\<open>ValueError\<close> before the loop when the width is zero or
  negative; the test on the width in the loop stands for that.
\<close>

function wrap_chunks :: "width \<Rightarrow> string list \<Rightarrow> string list \<Rightarrow> string list" where
  "wrap_chunks w lines chunks =
     (if chunks = [] \<or> width_le w 0 then lines
      else
        let r = wrap_line w (lines \<noteq> []) chunks
        in wrap_chunks w (if fst r \<noteq> [] then lines @ [concat (fst r)] else lines) (snd r))"
  by pat_completeness auto
termination
  by (relation "measure (\<lambda>(w, lines, chunks). work chunks)") (auto simp: wrap_line_work)

declare wrap_chunks.simps [simp del]

text \<open>\<^verbatim>\<open>textwrap.wrap(text, width)\<close> and \<^verbatim>\<open>textwrap.fill(text, width)\<close>.\<close>

definition wrap :: "string \<Rightarrow> width \<Rightarrow> error + string list" where
  "wrap text w =
     (let chunks = split_chunks text
      in if width_le w 0 then Inl ValueError else Inr (wrap_chunks w [] chunks))"

definition fill :: "string \<Rightarrow> width \<Rightarrow> error + string" where
  "fill text w = map_sum id (join ''\<newline>'') (wrap text w)"

text \<open>Chunks that hold no whitespace character.\<close>

definition clean :: "string list \<Rightarrow> bool" where
  "clean chunks \<longleftrightarrow> (\<forall>c \<in> set chunks. \<forall>x \<in> set c. \<not> isspace x)"

subsubsection \<open>\<^verbatim>\<open>write\<close>\<close>

text \<open>
  The text that one pass of the loop of \<^verbatim>\<open>write\<close> adds to \<^verbatim>\<open>records_str\<close>. The value is
  printed when \<^verbatim>\<open>record.target_value\<close> is true. \<^verbatim>\<open>textwrap.fill\<close> raises
  \<^verbatim>\<open>AttributeError\<close> for the sequence \<^verbatim>\<open>None\<close>.
\<close>

definition render :: "TBFSBS_Record \<Rightarrow> width \<Rightarrow> error + string" where
  "render record w =
     (let value = (if truthy (target_value record) then format_float (target_value record) @ '' ''
                   else '''')
      in case sequence record of
           None \<Rightarrow> Inl AttributeError
         | Some sq \<Rightarrow>
             (case fill sq w of
                Inl e \<Rightarrow> Inl e
              | Inr body \<Rightarrow>
                  Inr (''% '' @ format_str (identifier record) @ '' '' @ value @
                       format_str (description record) @ ''\<newline>'' @ body @ ''\<newline>'')))"

fun write_records :: "TBFSBS_Record list \<Rightarrow> width \<Rightarrow> string \<Rightarrow> error + string" where
  "write_records [] w records_str = Inr records_str"
| "write_records (record # rest) w records_str =
     (case render record w of
        Inl e \<Rightarrow> Inl e
      | Inr s \<Rightarrow> write_records rest w (records_str @ s))"

text \<open>
  \<^verbatim>\<open>write\<close>: the result is the exception raised or the text given to
  \<^verbatim>\<open>output_file.write\<close>, which is \<^verbatim>\<open>records_str[:-1]\<close>.
\<close>

definition "write" :: "TBFSBS \<Rightarrow> width \<Rightarrow> error + string" where
  "write self w = map_sum id butlast (write_records self w '''')"

section \<open>Properties\<close>

subsection \<open>Parsing\<close>

text \<open>
  C6. Parsing the input \<^verbatim>\<open>% A 1.5 desc one\nACGT\nACGT\n% B desc two\nTTTT\n\<close> gives exactly
  two records: identifier A, target value 1.5, description \<^verbatim>\<open>desc one\<close> and sequence
  ACGTACGT; then identifier B, no target value, description \<^verbatim>\<open>desc two\<close> and sequence
  TTTT. The second token of the second header is no numeral, so it starts the description.
  The float of the first record is \<open>6755399441055744 \<sqdot> 2\<^sup>-\<^sup>5\<^sup>2\<close>, which is 3/2.
\<close>

theorem parse_example_two_records:
  "parse ''% A 1.5 desc one\<newline>ACGT\<newline>ACGT\<newline>% B desc two\<newline>TTTT\<newline>'' [] =
     (None,
      [\<lparr>identifier = Some ''A'', target_value = Some (Finite False 6755399441055744 (- 52)),
        description = Some ''desc one'', sequence = Some ''ACGTACGT''\<rparr>,
       \<lparr>identifier = Some ''B'', target_value = None,
        description = Some ''desc two'', sequence = Some ''TTTT''\<rparr>]) \<and>
   float_value (Finite False 6755399441055744 (- 52)) = Some (3 / 2)"
proof
  show "parse ''% A 1.5 desc one\<newline>ACGT\<newline>ACGT\<newline>% B desc two\<newline>TTTT\<newline>'' [] =
     (None,
      [\<lparr>identifier = Some ''A'', target_value = Some (Finite False 6755399441055744 (- 52)),
        description = Some ''desc one'', sequence = Some ''ACGTACGT''\<rparr>,
       \<lparr>identifier = Some ''B'', target_value = None,
        description = Some ''desc two'', sequence = Some ''TTTT''\<rparr>])"
    by code_simp
  show "float_value (Finite False 6755399441055744 (- 52)) = Some (3 / 2)"
    by code_simp
qed

text \<open>
  C7. Parsing the single header line \<^verbatim>\<open>% X\n\<close> with no body gives exactly one record, with
  the empty sequence, no target value and the empty description: the flush after the
  loop runs when the last row was a header.
\<close>

theorem parse_single_header:
  "parse ''% X\<newline>'' [] =
     (None, [\<lparr>identifier = Some ''X'', target_value = None, description = Some '''',
              sequence = Some ''''\<rparr>])"
  by code_simp

text \<open>
  C2. The claim is that an input without header lines, the empty file in particular,
  parses to a collection of length 0. On the empty file \<^verbatim>\<open>parse\<close> raises instead: the
  \<^verbatim>\<open>else\<close> clause of the loop builds a record from \<^verbatim>\<open>iD\<close>, which no header has bound.
\<close>

theorem parse_empty_file_raises:
  "parse '''' [] = (Some (UnboundLocalError ''iD''), [])"
  by code_simp

text \<open>
  C10. When the first row of the input does not start with \<^verbatim>\<open>%\<close>, \<^verbatim>\<open>parse\<close> raises at
  that row, on reading \<^verbatim>\<open>seq\<close>, which only a header binds; no record is appended and the
  row is not skipped.
\<close>

theorem leading_body_row_raises:
  assumes "file_rows content = row # rows" and "\<not> startswith_percent row"
  shows "parse content self = (Some (UnboundLocalError ''seq''), self)"
  using assms by (simp add: parse_def parse_row_def initial_frame_def load_def)

theorem leading_body_row_raises_witness:
  "file_rows ''ACGT\<newline>% A\<newline>'' = [''ACGT\<newline>'', ''% A\<newline>''] \<and>
   \<not> startswith_percent ''ACGT\<newline>'' \<and>
   parse ''ACGT\<newline>% A\<newline>'' [] = (Some (UnboundLocalError ''seq''), [])"
proof -
  have r: "file_rows ''ACGT\<newline>% A\<newline>'' = [''ACGT\<newline>'', ''% A\<newline>'']"
    by code_simp
  have n: "\<not> startswith_percent ''ACGT\<newline>''"
    by simp
  show ?thesis
    using r n leading_body_row_raises [OF r n, of "[]"] by simp
qed

text \<open>A header row with fewer than two tokens raises, whatever was read before it.\<close>

lemma parse_row_no_identifier:
  assumes "startswith_percent row" and "length (split row) < 2"
  shows "\<exists>e self'. parse_row row f self = (Inl e, self')"
    and "header f = [] \<Longrightarrow> parse_row row f self = (Inl IndexError, self)"
proof -
  show "\<exists>e self'. parse_row row f self = (Inl e, self')"
  proof (cases "if header f \<noteq> [] then map_sum id (append self) (make_record f) else Inr self")
    case (Inl e)
    then show ?thesis using assms by (simp add: parse_row_def)
  next
    case (Inr s)
    then show ?thesis using assms by (simp add: parse_row_def Let_def)
  qed
  show "header f = [] \<Longrightarrow> parse_row row f self = (Inl IndexError, self)"
    using assms by (simp add: parse_row_def Let_def)
qed

lemma parse_rows_raise:
  assumes "startswith_percent row" and "length (split row) < 2"
  shows "\<exists>e self'. parse_rows (pre @ row # post) f self = (Inl e, self')"
proof (induction pre arbitrary: f self)
  case Nil
  from parse_row_no_identifier(1) [OF assms, of f self]
  show ?case by auto
next
  case (Cons r pre)
  show ?case
  proof (cases "parse_row r f self")
    case (Pair res s)
    then show ?thesis using Cons.IH [of _ s] by (cases res) auto
  qed
qed

text \<open>Reading a list of rows in two parts.\<close>

lemma parse_rows_append:
  "parse_rows (xs @ ys) f self =
     (case parse_rows xs f self of
        (Inl e, s) \<Rightarrow> (Inl e, s)
      | (Inr f', s) \<Rightarrow> parse_rows ys f' s)"
proof (induction xs arbitrary: f self)
  case Nil
  show ?case by simp
next
  case (Cons r xs)
  show ?case
  proof (cases "parse_row r f self")
    case (Pair res s)
    then show ?thesis using Cons.IH [of _ s] by (cases res) auto
  qed
qed

lemma parse_row_bound:
  assumes "parse_row row f self = (Inr f', s)"
    and "header f \<noteq> [] \<longrightarrow>
           (\<exists>i t d q. iD f = Some i \<and> var_target_value f = Some t \<and>
                      var_description f = Some d \<and> seq f = Some q)"
  shows "header f' \<noteq> [] \<longrightarrow>
           (\<exists>i t d q. iD f' = Some i \<and> var_target_value f' = Some t \<and>
                      var_description f' = Some d \<and> seq f' = Some q)"
proof (cases "startswith_percent row")
  case True
  then show ?thesis
    using assms(1)
    by (auto simp add: parse_row_def Let_def split: sum.splits if_splits prod.splits)
next
  case False
  then show ?thesis
    using assms
    by (auto simp add: parse_row_def load_def split: option.splits)
qed

lemma parse_rows_bound:
  assumes "parse_rows rows f self = (Inr f', s)"
    and "header f \<noteq> [] \<longrightarrow>
           (\<exists>i t d q. iD f = Some i \<and> var_target_value f = Some t \<and>
                      var_description f = Some d \<and> seq f = Some q)"
  shows "header f' \<noteq> [] \<longrightarrow>
           (\<exists>i t d q. iD f' = Some i \<and> var_target_value f' = Some t \<and>
                      var_description f' = Some d \<and> seq f' = Some q)"
  using assms
proof (induction rows arbitrary: f self)
  case Nil
  then show ?case by simp
next
  case (Cons r rows)
  show ?case
  proof (cases "parse_row r f self")
    case (Pair res s1)
    show ?thesis
    proof (cases res)
      case (Inl e)
      with Pair Cons.prems(1) show ?thesis by simp
    next
      case (Inr f1)
      with Pair Cons.prems(1) have "parse_rows rows f1 s1 = (Inr f', s)" by simp
      moreover from Pair Inr have "parse_row r f self = (Inr f1, s1)" by simp
      note parse_row_bound [OF this Cons.prems(2)]
      ultimately show ?thesis by (rule Cons.IH)
    qed
  qed
qed

lemma parse_row_no_identifier_flush:
  assumes "startswith_percent row" and "length (split row) < 2"
    and "header f \<noteq> []" and "iD f = Some i" and "var_target_value f = Some t"
    and "var_description f = Some d" and "seq f = Some q"
  shows "parse_row row f self =
           (Inl IndexError,
            self @ [\<lparr>identifier = Some i, target_value = t, description = Some d,
                     sequence = Some q\<rparr>])"
  using assms by (simp add: parse_row_def make_record_def load_def append_def Let_def)

text \<open>
  C4. A header row that lacks the identifier token, such as a row that holds the marker
  \<^verbatim>\<open>%\<close> only, makes \<^verbatim>\<open>parse\<close> fail: \<^verbatim>\<open>header[1]\<close> raises \<^verbatim>\<open>IndexError\<close>, which is the
  failure that the specification calls MalformedRecord (the program defines no exception
  class of its own). \<^verbatim>\<open>parse\<close> raises whatever precedes the row. When the row is the
  first one, the exception is \<^verbatim>\<open>IndexError\<close> and the collection is unchanged. When a
  row before it raises, that exception and the collection of that moment are the result.
  When the rows before it are read without exception, the exception is \<^verbatim>\<open>IndexError\<close>,
  and the collection holds the records flushed so far and, after them, the record of the
  preceding header, which is flushed before \<^verbatim>\<open>header[1]\<close> is evaluated.
\<close>

theorem header_without_identifier_raises:
  assumes "file_rows content = pre @ row # post"
    and "startswith_percent row" and "length (split row) < 2"
  shows "fst (parse content self) \<noteq> None \<and>
         (pre = [] \<longrightarrow> parse content self = (Some IndexError, self)) \<and>
         (\<forall>e s. parse_rows pre initial_frame self = (Inl e, s) \<longrightarrow>
                  parse content self = (Some e, s)) \<and>
         (\<forall>f s. parse_rows pre initial_frame self = (Inr f, s) \<longrightarrow>
            (if header f = [] then parse content self = (Some IndexError, s)
             else \<exists>i t d q.
                    iD f = Some i \<and> var_target_value f = Some t \<and>
                    var_description f = Some d \<and> seq f = Some q \<and>
                    parse content self =
                      (Some IndexError,
                       s @ [\<lparr>identifier = Some i, target_value = t, description = Some d,
                              sequence = Some q\<rparr>])))"
proof (intro conjI allI impI)
  from parse_rows_raise [OF assms(2,3), of pre post initial_frame self]
  obtain e s where "parse_rows (pre @ row # post) initial_frame self = (Inl e, s)"
    by blast
  then show "fst (parse content self) \<noteq> None"
    using assms(1) by (simp add: parse_def)
next
  assume "pre = []"
  moreover have "parse_row row initial_frame self = (Inl IndexError, self)"
    by (rule parse_row_no_identifier(2) [OF assms(2,3)]) (simp add: initial_frame_def)
  ultimately show "parse content self = (Some IndexError, self)"
    using assms(1) by (simp add: parse_def)
next
  fix e s
  assume "parse_rows pre initial_frame self = (Inl e, s)"
  then show "parse content self = (Some e, s)"
    using assms(1) by (simp add: parse_def parse_rows_append)
next
  fix f s
  assume pre: "parse_rows pre initial_frame self = (Inr f, s)"
  have rows: "parse_rows (pre @ row # post) initial_frame self = parse_rows (row # post) f s"
    using pre by (simp add: parse_rows_append)
  show "if header f = [] then parse content self = (Some IndexError, s)
        else \<exists>i t d q.
               iD f = Some i \<and> var_target_value f = Some t \<and>
               var_description f = Some d \<and> seq f = Some q \<and>
               parse content self =
                 (Some IndexError,
                  s @ [\<lparr>identifier = Some i, target_value = t, description = Some d,
                         sequence = Some q\<rparr>])"
  proof (cases "header f = []")
    case True
    from parse_row_no_identifier(2) [OF assms(2,3) True]
    have "parse_row row f s = (Inl IndexError, s)" .
    then show ?thesis
      using True assms(1) rows by (simp add: parse_def)
  next
    case False
    have "header initial_frame \<noteq> [] \<longrightarrow>
           (\<exists>i t d q. iD initial_frame = Some i \<and> var_target_value initial_frame = Some t \<and>
                      var_description initial_frame = Some d \<and> seq initial_frame = Some q)"
      by (simp add: initial_frame_def)
    from parse_rows_bound [OF pre this] False
    obtain i t d q where b: "iD f = Some i" "var_target_value f = Some t"
        "var_description f = Some d" "seq f = Some q"
      by blast
    from parse_row_no_identifier_flush [OF assms(2,3) False b]
    have "parse_row row f s =
           (Inl IndexError,
            s @ [\<lparr>identifier = Some i, target_value = t, description = Some d,
                  sequence = Some q\<rparr>])" .
    then show ?thesis
      using False assms(1) rows b by (simp add: parse_def)
  qed
qed

theorem header_without_identifier_raises_witness:
  "file_rows ''%\<newline>'' = [] @ ''%\<newline>'' # [] \<and> startswith_percent ''%\<newline>'' \<and>
   length (split ''%\<newline>'') < 2 \<and> parse ''%\<newline>'' [] = (Some IndexError, []) \<and>
   file_rows ''% A 1.5 d\<newline>ACGT\<newline>%\<newline>TT\<newline>'' =
     [''% A 1.5 d\<newline>'', ''ACGT\<newline>''] @ ''%\<newline>'' # [''TT\<newline>''] \<and>
   parse_rows [''% A 1.5 d\<newline>'', ''ACGT\<newline>''] initial_frame [] =
     (Inr \<lparr>header = [''%'', ''A'', ''1.5'', ''d''], iD = Some ''A'',
            var_target_value = Some (Some (Finite False 6755399441055744 (- 52))),
            var_description = Some ''d'', seq = Some ''ACGT''\<rparr>, []) \<and>
   parse ''% A 1.5 d\<newline>ACGT\<newline>%\<newline>TT\<newline>'' [] =
     (Some IndexError,
      [\<lparr>identifier = Some ''A'', target_value = Some (Finite False 6755399441055744 (- 52)),
        description = Some ''d'', sequence = Some ''ACGT''\<rparr>])"
proof -
  have a: "file_rows ''%\<newline>'' = [] @ ''%\<newline>'' # []" by code_simp
  have b: "startswith_percent ''%\<newline>''" by simp
  have c: "length (split ''%\<newline>'') < 2" by code_simp
  have a': "file_rows ''% A 1.5 d\<newline>ACGT\<newline>%\<newline>TT\<newline>'' =
     [''% A 1.5 d\<newline>'', ''ACGT\<newline>''] @ ''%\<newline>'' # [''TT\<newline>'']" by code_simp
  have p: "parse_rows [''% A 1.5 d\<newline>'', ''ACGT\<newline>''] initial_frame [] =
     (Inr \<lparr>header = [''%'', ''A'', ''1.5'', ''d''], iD = Some ''A'',
            var_target_value = Some (Some (Finite False 6755399441055744 (- 52))),
            var_description = Some ''d'', seq = Some ''ACGT''\<rparr>, [])" by code_simp
  have first: "parse ''%\<newline>'' [] = (Some IndexError, [])"
    using header_without_identifier_raises [OF a b c, of "[]"] by simp
  have later: "parse ''% A 1.5 d\<newline>ACGT\<newline>%\<newline>TT\<newline>'' [] =
     (Some IndexError,
      [\<lparr>identifier = Some ''A'', target_value = Some (Finite False 6755399441055744 (- 52)),
        description = Some ''d'', sequence = Some ''ACGT''\<rparr>])"
    using header_without_identifier_raises [OF a' b c, of "[]"] p by simp
  show ?thesis
    using a b c a' p first later by simp
qed

subsection \<open>Aggregation\<close>

text \<open>
  C9. Extending a collection \<open>A\<close> with a collection \<open>B\<close> gives a collection of length
  \<open>length A + length B\<close> (5 for the lengths 3 and 2) that holds the records of \<open>A\<close> first,
  in their order, and then the records of \<open>B\<close>, in their order; appending a record
  keeps the records of \<open>A\<close> first as well.
\<close>

theorem extend_keeps_order:
  "length (extend A B) = length A + length B \<and>
   take (length A) (extend A B) = A \<and> drop (length A) (extend A B) = B \<and>
   take (length A) (append A r) = A \<and> drop (length A) (append A r) = [r]"
  by (simp add: extend_def append_def)


subsection \<open>Writing\<close>

text \<open>
  C3. The claim is that \<^verbatim>\<open>write\<close> renders every target value that is set, the value 0
  included, in its numeric string form followed by one space. \<^verbatim>\<open>write\<close> tests the truth
  value of \<^verbatim>\<open>record.target_value\<close>, and the float 0.0 is false: for a record with the
  target value 0.0 the header line has no value, where the claim expects \<^verbatim>\<open>% A 0.0 d\<close>.
\<close>

theorem write_omits_zero_value:
  "write [\<lparr>identifier = Some ''A'', target_value = Some (Finite False 0 (- 1074)),
           description = Some ''d'', sequence = Some ''ACGT''\<rparr>] Unbounded =
     Inr ''% A d\<newline>ACGT'' \<and>
   float_repr (Finite False 0 (- 1074)) = ''0.0''"
  by code_simp

text \<open>
  C1. The claim is that parsing the text that \<^verbatim>\<open>write\<close> produces with an unbounded width
  gives back the records. The input \<^verbatim>\<open>% A 0 d\nACGT\n\<close> parses to one record with the
  target value 0.0; \<^verbatim>\<open>write\<close> leaves the value out, and parsing the text written gives a
  record without target value.
\<close>

theorem round_trip_loses_zero_value:
  "parse ''% A 0 d\<newline>ACGT\<newline>'' [] =
     (None, [\<lparr>identifier = Some ''A'', target_value = Some (Finite False 0 (- 1074)),
              description = Some ''d'', sequence = Some ''ACGT''\<rparr>]) \<and>
   write [\<lparr>identifier = Some ''A'', target_value = Some (Finite False 0 (- 1074)),
           description = Some ''d'', sequence = Some ''ACGT''\<rparr>] Unbounded =
     Inr ''% A d\<newline>ACGT'' \<and>
   parse ''% A d\<newline>ACGT'' [] =
     (None, [\<lparr>identifier = Some ''A'', target_value = None,
              description = Some ''d'', sequence = Some ''ACGT''\<rparr>])"
  by code_simp

subsection \<open>Wrapping\<close>

text \<open>Text without whitespace is split into chunks without whitespace, and no chunk is lost.\<close>

lemma tw_whitespace_isspace: "tw_whitespace c \<Longrightarrow> isspace c"
  by (auto simp: tw_whitespace_def isspace_def)

lemma expandtabs_clean: "\<forall>c \<in> set s. \<not> isspace c \<Longrightarrow> expandtabs_from j s = s"
proof (induction s arbitrary: j)
  case Nil
  then show ?case by simp
next
  case (Cons c s)
  then have "c \<noteq> CHR 0x09" by (auto simp: isspace_def)
  with Cons show ?case by simp
qed

lemma munge_clean:
  assumes "\<forall>c \<in> set s. \<not> isspace c"
  shows "munge_whitespace s = s"
proof -
  have "map (\<lambda>c. if tw_whitespace c then CHR '' '' else c) s = s"
    using assms tw_whitespace_isspace by (intro map_idI) auto
  then show ?thesis
    using assms by (simp add: munge_whitespace_def expandtabs_clean)
qed

lemma concat_chunks_from: "concat (chunks_from bef s) = s"
proof (induction bef s rule: chunks_from.induct)
  case (1 bef s)
  show ?case
  proof (cases "s = []")
    case True
    then show ?thesis by (simp add: chunks_from.simps [of bef "[]"])
  next
    case False
    with 1 show ?thesis by (simp add: chunks_from.simps [of bef s])
  qed
qed

lemma set_chunks_from: "c \<in> set (chunks_from bef s) \<Longrightarrow> set c \<subseteq> set s"
proof (induction bef s rule: chunks_from.induct)
  case (1 bef s)
  show ?case
  proof (cases "s = []")
    case True
    with "1.prems" show ?thesis by (simp add: chunks_from.simps [of bef "[]"])
  next
    case False
    from "1.prems" False
    consider "c = take (chunk_len bef s) s"
      | "c \<in> set (chunks_from (rev (take (chunk_len bef s) s) @ bef) (drop (chunk_len bef s) s))"
      by (auto simp: chunks_from.simps [of bef s])
    then show ?thesis
    proof cases
      case 1
      then show ?thesis by (simp add: set_take_subset)
    next
      case 2
      from "1.IH" [OF False 2] set_drop_subset [of "chunk_len bef s" s]
      show ?thesis by blast
    qed
  qed
qed

lemma clean_split_chunks: "\<forall>c \<in> set s. \<not> isspace c \<Longrightarrow> clean (split_chunks s)"
  using set_chunks_from [of _ "[]" s] by (auto simp: clean_def split_chunks_def munge_clean)

lemma blank_clean: "\<forall>x \<in> set c. \<not> isspace x \<Longrightarrow> blank c \<longleftrightarrow> c = []"
  by (cases c) (auto simp: blank_def)

lemma break_long_concat:
  assumes "break_long w cl n chunks = (cl2, chunks3)"
  shows "concat cl2 @ concat chunks3 = concat cl @ concat chunks"
    and "clean chunks \<Longrightarrow> clean chunks3"
    and "clean chunks \<Longrightarrow> clean cl \<Longrightarrow> clean cl2"
proof -
  have "(cl2 = cl \<and> chunks3 = chunks) \<or>
        (\<exists>k c cs. chunks = c # cs \<and> cl2 = cl @ [take k c] \<and> chunks3 = drop k c # cs)"
  proof (cases w)
    case Unbounded
    with assms show ?thesis by (simp add: break_long_def)
  next
    case (Width m)
    show ?thesis
    proof (cases "chunks \<noteq> [] \<and> m < int (length (hd chunks))")
      case False
      with assms Width show ?thesis by (auto simp: break_long_def)
    next
      case True
      then obtain c cs where c: "chunks = c # cs" by (cases chunks) auto
      from handle_long_word_snd [of c cs cl n m] obtain k where
        "handle_long_word (c # cs) cl n m = (cl @ [take k c], drop k c # cs)"
        by blast
      with assms Width True c show ?thesis by (auto simp: break_long_def)
    qed
  qed
  then consider "cl2 = cl" "chunks3 = chunks"
    | k c cs where "chunks = c # cs" "cl2 = cl @ [take k c]" "chunks3 = drop k c # cs"
    by blast
  note alt = this
  show "concat cl2 @ concat chunks3 = concat cl @ concat chunks"
    using alt by cases simp_all
  show "clean chunks \<Longrightarrow> clean chunks3"
    using alt by cases (auto simp: clean_def dest: in_set_dropD)
  show "clean chunks \<Longrightarrow> clean cl \<Longrightarrow> clean cl2"
    using alt by cases (auto simp: clean_def dest: in_set_takeD)
qed

lemma drop_blank_concat: "clean cl \<Longrightarrow> concat (drop_blank cl) = concat cl"
proof (cases "cl \<noteq> [] \<and> blank (last cl)")
  case False
  then show ?thesis by (auto simp: drop_blank_def)
next
  case True
  assume "clean cl"
  with True have "\<forall>x \<in> set (last cl). \<not> isspace x"
    using last_in_set [of cl] by (auto simp: clean_def)
  with True have "last cl = []"
    using blank_clean [of "last cl"] by blast
  moreover have "cl = butlast cl @ [last cl]" using True by simp
  ultimately have "concat cl = concat (butlast cl)"
    by (metis append_Nil2 concat.simps(1,2) concat_append)
  with True show ?thesis by (simp add: drop_blank_def)
qed

lemma wrap_line_concat:
  assumes "clean chunks" and "chunks \<noteq> []"
  shows "concat (fst (wrap_line w started chunks)) @ concat (snd (wrap_line w started chunks)) =
           concat chunks"
    and "clean (snd (wrap_line w started chunks))"
proof -
  define chunks1 where "chunks1 = (if blank (hd chunks) \<and> started then tl chunks else chunks)"
  obtain c cs where c: "chunks = c # cs" using assms(2) by (cases chunks) auto
  have c1: "concat chunks1 = concat chunks" "clean chunks1"
    using assms(1) c blank_clean [of c] by (auto simp: chunks1_def clean_def)
  obtain cur_line cur_len chunks2 where f: "fit w [] 0 chunks1 = (cur_line, cur_len, chunks2)"
    by (cases "fit w [] 0 chunks1") auto
  from fit_split [OF f] have t: "chunks1 = cur_line @ chunks2" by auto
  then have cl: "clean cur_line" "clean chunks2" using c1(2) by (auto simp: clean_def)
  obtain cl2 chunks3 where b: "break_long w cur_line cur_len chunks2 = (cl2, chunks3)"
    by (cases "break_long w cur_line cur_len chunks2") auto
  have res: "wrap_line w started chunks = (drop_blank cl2, chunks3)"
    unfolding wrap_line_def chunks1_def [symmetric] f by (simp add: b)
  from break_long_concat [OF b] cl
  have "concat cl2 @ concat chunks3 = concat cur_line @ concat chunks2" "clean chunks3" "clean cl2"
    by auto
  then show "concat (fst (wrap_line w started chunks)) @ concat (snd (wrap_line w started chunks)) =
           concat chunks"
    and "clean (snd (wrap_line w started chunks))"
    using res t c1(1) by (simp_all add: drop_blank_concat)
qed

lemma wrap_chunks_concat:
  "clean chunks \<Longrightarrow> \<not> width_le w 0 \<Longrightarrow>
     concat (wrap_chunks w lines chunks) = concat lines @ concat chunks"
proof (induction w lines chunks rule: wrap_chunks.induct)
  case (1 w lines chunks)
  show ?case
  proof (cases "chunks = []")
    case True
    then show ?thesis by (simp add: wrap_chunks.simps [of w lines "[]"])
  next
    case False
    define r where "r = wrap_line w (lines \<noteq> []) chunks"
    have cond: "\<not> (chunks = [] \<or> width_le w 0)" using False "1.prems" by simp
    from wrap_line_concat [OF "1.prems"(1) False, of w "lines \<noteq> []"]
    have wl: "concat (fst r) @ concat (snd r) = concat chunks" "clean (snd r)"
      by (simp_all add: r_def)
    have step: "wrap_chunks w lines chunks =
        wrap_chunks w (if fst r \<noteq> [] then lines @ [concat (fst r)] else lines) (snd r)"
      using cond by (subst wrap_chunks.simps) (simp add: r_def Let_def)
    have "concat (wrap_chunks w (if fst r \<noteq> [] then lines @ [concat (fst r)] else lines) (snd r)) =
          concat (if fst r \<noteq> [] then lines @ [concat (fst r)] else lines) @ concat (snd r)"
      using "1.IH" [OF cond r_def wl(2) "1.prems"(2)] .
    also have "\<dots> = concat lines @ concat (fst r) @ concat (snd r)"
      by simp
    also have "\<dots> = concat lines @ concat chunks"
      using wl(1) by simp
    finally show ?thesis
      unfolding step .
  qed
qed

lemma drop_blank_length: "length (concat (drop_blank cl)) \<le> length (concat cl)"
proof (cases "cl \<noteq> [] \<and> blank (last cl)")
  case False
  then show ?thesis by (auto simp: drop_blank_def)
next
  case True
  then have "cl = butlast cl @ [last cl]" by simp
  then have "concat cl = concat (butlast cl) @ last cl"
    by (metis append_Nil2 concat.simps(1,2) concat_append)
  with True show ?thesis by (simp add: drop_blank_def)
qed

lemma wrap_line_bound:
  assumes "\<not> width_le w 0"
  shows "le_width (int (length (concat (fst (wrap_line w started chunks))))) w"
proof -
  define chunks1 where "chunks1 = (if blank (hd chunks) \<and> started then tl chunks else chunks)"
  obtain cur_line cur_len chunks2 where f: "fit w [] 0 chunks1 = (cur_line, cur_len, chunks2)"
    by (cases "fit w [] 0 chunks1") auto
  from fit_split [OF f] have t: "cur_len = int (length (concat cur_line))" by auto
  have "le_width 0 w" using assms by (cases w) auto
  from fit_bound [OF f this] have fb: "le_width cur_len w" .
  obtain cl2 chunks3 where b: "break_long w cur_line cur_len chunks2 = (cl2, chunks3)"
    by (cases "break_long w cur_line cur_len chunks2") auto
  have res: "wrap_line w started chunks = (drop_blank cl2, chunks3)"
    unfolding wrap_line_def chunks1_def [symmetric] f by (simp add: b)
  have "le_width (int (length (concat cl2))) w"
  proof (cases w)
    case Unbounded
    then show ?thesis by simp
  next
    case (Width m)
    with assms have m1: "1 \<le> m" by simp
    from fb Width have nm: "cur_len \<le> m" by simp
    show ?thesis
    proof (cases "chunks2 \<noteq> [] \<and> m < int (length (hd chunks2))")
      case False
      with b Width have "cl2 = cur_line" by (auto simp: break_long_def)
      with t nm Width show ?thesis by simp
    next
      case True
      then obtain c cs where c: "chunks2 = c # cs" by (cases chunks2) auto
      from handle_long_word_snd [of c cs cur_line cur_len m] m1 nm obtain k where
        k: "handle_long_word (c # cs) cur_line cur_len m = (cur_line @ [take k c], drop k c # cs)"
           "int k \<le> m - cur_len"
        by blast
      from b Width True c k(1) have "cl2 = cur_line @ [take k c]"
        by (auto simp: break_long_def)
      then have "int (length (concat cl2)) \<le> cur_len + int k"
        using t by simp
      with k(2) Width show ?thesis by simp
    qed
  qed
  moreover have "length (concat (drop_blank cl2)) \<le> length (concat cl2)"
    by (rule drop_blank_length)
  ultimately have "le_width (int (length (concat (drop_blank cl2)))) w"
    by (cases w) auto
  with res show ?thesis by simp
qed

lemma wrap_chunks_bound:
  "\<not> width_le w 0 \<Longrightarrow> \<forall>l \<in> set lines. le_width (int (length l)) w \<Longrightarrow>
     \<forall>l \<in> set (wrap_chunks w lines chunks). le_width (int (length l)) w"
proof (induction w lines chunks rule: wrap_chunks.induct)
  case (1 w lines chunks)
  show ?case
  proof (cases "chunks = []")
    case True
    with "1.prems" show ?thesis by (simp add: wrap_chunks.simps [of w lines "[]"])
  next
    case False
    define r where "r = wrap_line w (lines \<noteq> []) chunks"
    have cond: "\<not> (chunks = [] \<or> width_le w 0)" using False "1.prems" by simp
    have "le_width (int (length (concat (fst r)))) w"
      unfolding r_def by (rule wrap_line_bound [OF "1.prems"(1)])
    with "1.prems"(2)
    have "\<forall>l \<in> set (if fst r \<noteq> [] then lines @ [concat (fst r)] else lines).
            le_width (int (length l)) w"
      by auto
    from "1.IH" [OF cond r_def "1.prems"(1) this]
    have "\<forall>l \<in> set (wrap_chunks w (if fst r \<noteq> [] then lines @ [concat (fst r)] else lines)
              (snd r)). le_width (int (length l)) w" .
    moreover have "wrap_chunks w lines chunks =
        wrap_chunks w (if fst r \<noteq> [] then lines @ [concat (fst r)] else lines) (snd r)"
      using cond by (subst wrap_chunks.simps) (simp add: r_def Let_def)
    ultimately show ?thesis by simp
  qed
qed

lemma filter_join:
  "filter P sep = [] \<Longrightarrow> filter P (join sep ls) = concat (map (filter P) ls)"
  by (induction sep ls rule: join.induct) simp_all

text \<open>
  C5. The claim is that, for every sequence and every width of at least 1, the lines
  that \<^verbatim>\<open>write\<close> makes of the sequence have at most that many characters each and give
  back the sequence when they are concatenated, that is when the line breaks inserted are
  deleted. \<^verbatim>\<open>write\<close> wraps the sequence with \<^verbatim>\<open>textwrap.fill\<close>, which wraps words: the bound
  on the lines holds for every sequence, and the lines give back every sequence that
  holds no whitespace character. Whitespace inside a sequence is dropped where a line is
  broken: the row \<^verbatim>\<open>AC GT\<close> is read as the sequence \<^verbatim>\<open>AC GT\<close>, which is written at the
  width 2 as the lines \<^verbatim>\<open>AC\<close> and \<^verbatim>\<open>GT\<close>.
\<close>

theorem wrap_bounded_and_rejoins:
  assumes "1 \<le> w" and "sequence r = Some text"
  shows "\<exists>ls. wrap text (Width w) = Inr ls \<and> fill text (Width w) = Inr (join ''\<newline>'' ls) \<and>
           render r (Width w) =
             Inr (''% '' @ format_str (identifier r) @ '' '' @
                  (if truthy (target_value r) then format_float (target_value r) @ '' ''
                   else '''') @
                  format_str (description r) @ ''\<newline>'' @ join ''\<newline>'' ls @ ''\<newline>'') \<and>
           (\<forall>l \<in> set ls. int (length l) \<le> w) \<and>
           ((\<forall>c \<in> set text. \<not> isspace c) \<longrightarrow>
              concat ls = text \<and> filter (\<lambda>c. c \<noteq> CHR 0x0A) (join ''\<newline>'' ls) = text)"
proof -
  define ls where "ls = wrap_chunks (Width w) [] (split_chunks text)"
  have nw: "\<not> width_le (Width w) 0" using assms(1) by simp
  have w: "wrap text (Width w) = Inr ls"
    using nw by (simp add: wrap_def ls_def)
  then have f: "fill text (Width w) = Inr (join ''\<newline>'' ls)"
    by (simp add: fill_def)
  have d: "render r (Width w) =
             Inr (''% '' @ format_str (identifier r) @ '' '' @
                  (if truthy (target_value r) then format_float (target_value r) @ '' ''
                   else '''') @
                  format_str (description r) @ ''\<newline>'' @ join ''\<newline>'' ls @ ''\<newline>'')"
    using assms(2) f by (simp add: render_def)
  have b: "\<forall>l \<in> set ls. int (length l) \<le> w"
    using wrap_chunks_bound [OF nw, of "[]" "split_chunks text"] by (simp add: ls_def)
  have r: "concat ls = text \<and> filter (\<lambda>c. c \<noteq> CHR 0x0A) (join ''\<newline>'' ls) = text"
    if cl: "\<forall>c \<in> set text. \<not> isspace c"
  proof -
    have "concat ls = concat (split_chunks text)"
      using wrap_chunks_concat [OF clean_split_chunks [OF cl] nw, of "[]"] by (simp add: ls_def)
    then have c: "concat ls = text"
      using cl by (simp add: split_chunks_def munge_clean concat_chunks_from)
    have "isspace (CHR 0x0A)" by (simp add: isspace_def)
    with cl have "\<forall>x \<in> set (concat ls). x \<noteq> CHR 0x0A"
      unfolding c by blast
    then have "map (filter (\<lambda>c. c \<noteq> CHR 0x0A)) ls = ls"
      by (intro map_idI) (auto simp: filter_id_conv)
    then have "filter (\<lambda>c. c \<noteq> CHR 0x0A) (join ''\<newline>'' ls) = concat ls"
      by (simp add: filter_join)
    with c show ?thesis by simp
  qed
  from w f d b r show ?thesis by blast
qed

theorem wrap_bounded_and_rejoins_witness:
  "(1::int) \<le> 4 \<and>
   sequence \<lparr>identifier = Some ''A'', target_value = None, description = Some ''d'',
             sequence = Some ''ACGTACGTAC''\<rparr> = Some ''ACGTACGTAC'' \<and>
   wrap ''ACGTACGTAC'' (Width 4) = Inr [''ACGT'', ''ACGT'', ''AC''] \<and>
   render \<lparr>identifier = Some ''A'', target_value = None, description = Some ''d'',
           sequence = Some ''ACGTACGTAC''\<rparr> (Width 4) =
     Inr ''% A d\<newline>ACGT\<newline>ACGT\<newline>AC\<newline>'' \<and>
   list_all (\<lambda>l. int (length l) \<le> 4) [''ACGT'', ''ACGT'', ''AC''] \<and>
   list_all (\<lambda>c. \<not> isspace c) ''ACGTACGTAC'' \<and>
   concat [''ACGT'', ''ACGT'', ''AC''] = ''ACGTACGTAC''"
proof -
  let ?r = "\<lparr>identifier = Some ''A'', target_value = None, description = Some ''d'',
             sequence = Some ''ACGTACGTAC''\<rparr>"
  have a: "(1::int) \<le> 4" by simp
  have s: "sequence ?r = Some ''ACGTACGTAC''" by simp
  have b: "wrap ''ACGTACGTAC'' (Width 4) = Inr [''ACGT'', ''ACGT'', ''AC'']" by code_simp
  have c: "\<forall>c \<in> set ''ACGTACGTAC''. \<not> isspace c" by (simp add: isspace_def)
  have h: "''% '' @ format_str (identifier ?r) @ '' '' @
             (if truthy (target_value ?r) then format_float (target_value ?r) @ '' '' else '''') @
             format_str (description ?r) @ ''\<newline>'' @ join ''\<newline>'' [''ACGT'', ''ACGT'', ''AC''] @
             ''\<newline>'' = ''% A d\<newline>ACGT\<newline>ACGT\<newline>AC\<newline>''"
    by code_simp
  from wrap_bounded_and_rejoins [OF a s] b
  have "render ?r (Width 4) =
          Inr (''% '' @ format_str (identifier ?r) @ '' '' @
             (if truthy (target_value ?r) then format_float (target_value ?r) @ '' '' else '''') @
             format_str (description ?r) @ ''\<newline>'' @ join ''\<newline>'' [''ACGT'', ''ACGT'', ''AC''] @
             ''\<newline>'') \<and>
        (\<forall>l \<in> set [''ACGT'', ''ACGT'', ''AC'']. int (length l) \<le> 4) \<and>
        ((\<forall>c \<in> set ''ACGTACGTAC''. \<not> isspace c) \<longrightarrow>
           concat [''ACGT'', ''ACGT'', ''AC''] = ''ACGTACGTAC'')"
    by auto
  with a s b c h show ?thesis by (simp add: list_all_iff)
qed

text \<open>
  The claim as it is written fails on a sequence with a space: the file row \<^verbatim>\<open>AC GT\<close>
  is read as the sequence \<^verbatim>\<open>AC GT\<close>; at the width 2 it is written as the lines \<^verbatim>\<open>AC\<close> and
  \<^verbatim>\<open>GT\<close>, whose concatenation \<^verbatim>\<open>ACGT\<close> is not the sequence.
\<close>

theorem wrap_loses_whitespace_counterexample:
  "parse ''% A d\<newline>AC GT\<newline>'' [] =
     (None, [\<lparr>identifier = Some ''A'', target_value = None, description = Some ''d'',
              sequence = Some ''AC GT''\<rparr>]) \<and>
   wrap ''AC GT'' (Width 2) = Inr [''AC'', ''GT''] \<and>
   write [\<lparr>identifier = Some ''A'', target_value = None, description = Some ''d'',
           sequence = Some ''AC GT''\<rparr>] (Width 2) = Inr ''% A d\<newline>AC\<newline>GT'' \<and>
   concat [''AC'', ''GT''] \<noteq> ''AC GT''"
  by code_simp

subsection \<open>The summary of a record\<close>

text \<open>Rounding a zero to one decimal place does not change how it is printed.\<close>

lemma round1_zero: "float_repr (round1 (Finite s 0 e)) = float_repr (Finite s 0 e)"
  by (simp add: fraction_def round_half_even_def decimal_to_double_def round_to_double_def)

text \<open>The integer nearest to a quotient, and the error of the conversion to a float.\<close>

lemma round_half_even_nearest:
  assumes "0 < b"
  shows "round_half_even a b = nearest_even (of_int a / of_int b)"
proof -
  have f: "\<lfloor>(of_int a / of_int b :: rat)\<rfloor> = a div b"
    by (rule floor_divide_of_int_eq)
  have r: "(of_int a / of_int b :: rat) - of_int (a div b) = of_int (a mod b) / of_int b"
    using of_int_div_aux [of a b, where ?'a = rat] by simp
  have lt: "(of_int (a mod b) / of_int b :: rat) < 1 / 2 \<longleftrightarrow> 2 * (a mod b) < b"
  proof -
    have "(of_int (a mod b) / of_int b :: rat) < 1 / 2 \<longleftrightarrow>
          (of_int (2 * (a mod b)) :: rat) < of_int b"
      using assms by (simp add: field_simps)
    then show ?thesis by (simp only: of_int_less_iff)
  qed
  have gt: "1 / 2 < (of_int (a mod b) / of_int b :: rat) \<longleftrightarrow> b < 2 * (a mod b)"
  proof -
    have "1 / 2 < (of_int (a mod b) / of_int b :: rat) \<longleftrightarrow>
          (of_int b :: rat) < of_int (2 * (a mod b))"
      using assms by (simp add: field_simps)
    then show ?thesis by (simp only: of_int_less_iff)
  qed
  show ?thesis
    unfolding round_half_even_def nearest_even_def Let_def f r lt gt ..
qed

lemma nearest_even_err: "\<bar>of_int (nearest_even q) - q\<bar> \<le> 1 / 2"
proof -
  have "of_int \<lfloor>q\<rfloor> \<le> q" "q < of_int \<lfloor>q\<rfloor> + 1"
    by linarith+
  then show ?thesis
    by (auto simp: nearest_even_def Let_def) 
qed

lemma nearest_even_nonneg: "0 \<le> q \<Longrightarrow> 0 \<le> nearest_even q"
  by (auto simp: nearest_even_def Let_def)

lemma bit_length_bounds:
  "0 < n \<Longrightarrow> \<exists>k. bit_length n = int k + 1 \<and> 2 ^ k \<le> n \<and> n < 2 ^ (k + 1)"
proof (induction n rule: bit_length.induct)
  case (1 n)
  show ?case
  proof (cases "n div 2 = 0")
    case True
    with "1.prems" have "n = 1" by presburger
    then have "bit_length n = int 0 + 1 \<and> 2 ^ 0 \<le> n \<and> n < 2 ^ (0 + 1)"
      by (simp add: bit_length.simps [of 1] bit_length.simps [of 0])
    then show ?thesis by blast
  next
    case False
    with "1.prems" have p: "0 < n div 2" by presburger
    from "1.IH" [OF _ p] "1.prems" obtain k where
      k: "bit_length (n div 2) = int k + 1" "2 ^ k \<le> n div 2" "n div 2 < 2 ^ (k + 1)"
      by auto
    have "bit_length n = int (k + 1) + 1"
      using "1.prems" k(1) by (simp add: bit_length.simps [of n])
    moreover have "2 ^ (k + 1) \<le> n" using k(2) by (simp; presburger)
    moreover have "n < 2 ^ (k + 1 + 1)" using k(3) by (simp; presburger)
    ultimately show ?thesis by blast
  qed
qed


lemma powi_neg: "\<not> 0 \<le> e \<Longrightarrow> (2::rat) powi e = inverse (2 ^ nat (- e))"
proof -
  assume "\<not> 0 \<le> e"
  then have "(2::rat) powi e = inverse 2 ^ nat (- e)"
    by (simp add: power_int_def)
  also have "\<dots> = inverse (2 ^ nat (- e))"
    by (rule power_inverse)
  finally show ?thesis .
qed

lemma scaled_round_nearest:
  assumes "0 < d"
  shows "scaled_round n d e = nearest_even (of_int n / of_int d / 2 powi e)"
proof (cases "0 \<le> e")
  case True
  have "0 < d * 2 ^ nat e" using assms by simp
  from round_half_even_nearest [OF this, of n] True
  show ?thesis
    by (simp add: scaled_round_def power_int_nonneg_exp)
next
  case False
  then have p: "(2::rat) powi e = inverse (2 ^ nat (- e))"
    by (rule powi_neg)
  have "(of_int (n * 2 ^ nat (- e)) :: rat) / of_int d = of_int n / of_int d / 2 powi e"
    unfolding p by (simp add: field_simps)
  with round_half_even_nearest [OF assms, of "n * 2 ^ nat (- e)"]
  have "round_half_even (n * 2 ^ nat (- e)) d = nearest_even (of_int n / of_int d / 2 powi e)"
    by (simp only:)
  with False show ?thesis
    by (simp only: scaled_round_def if_False)
qed

text \<open>The exponent that \<open>round_to_double\<close> starts from is not above the quotient.\<close>

lemma round_to_double_unfold:
  assumes "0 < n" and "0 < d"
  obtains l where "of_int d * 2 powi l \<le> (of_int n :: rat)"
    and "round_to_double s n d =
           (let e = max (l - 52) (- 1074);
                m = scaled_round n d e;
                e' = (if m = 2 ^ 53 then e + 1 else e);
                m' = (if m = 2 ^ 53 then 2 ^ 52 else m)
            in if 971 < e' then Infinity s else Finite s m' e')"
proof -
  define b where "b = bit_length n - bit_length d"
  define l where "l = (if 0 \<le> b then (if d * 2 ^ nat b \<le> n then b else b - 1)
                 else (if d \<le> n * 2 ^ nat (- b) then b else b - 1))"
  from bit_length_bounds [OF assms(1)] obtain kn where
    kn: "bit_length n = int kn + 1" "2 ^ kn \<le> n" "n < 2 ^ (kn + 1)" by blast
  from bit_length_bounds [OF assms(2)] obtain kd where
    kd: "bit_length d = int kd + 1" "2 ^ kd \<le> d" "d < 2 ^ (kd + 1)" by blast
  have b: "b = int kn - int kd" by (simp add: b_def kn(1) kd(1))
  have low: "of_int d * 2 powi (b - 1) \<le> (of_int n :: rat)"
  proof -
    have "(of_int d :: rat) \<le> 2 ^ (kd + 1)"
      using kd(3) by (metis less_imp_le of_int_le_iff of_int_numeral of_int_power)
    then have "(of_int d :: rat) * 2 powi (b - 1) \<le> 2 ^ (kd + 1) * 2 powi (b - 1)"
      by (intro mult_right_mono) simp_all
    also have "(2::rat) ^ (kd + 1) = 2 powi (int kd + 1)"
      by (simp add: power_int_add power_int_of_nat)
    also have "(2::rat) powi (int kd + 1) * 2 powi (b - 1) = 2 powi (int kd + 1 + (b - 1))"
      by (rule power_int_add [symmetric]) simp
    also have "int kd + 1 + (b - 1) = int kn" by (simp add: b)
    also have "(2::rat) powi int kn = 2 ^ kn" by (simp add: power_int_of_nat)
    also have "\<dots> \<le> of_int n"
      using kn(2) by (metis of_int_le_iff of_int_numeral of_int_power)
    finally show ?thesis .
  qed
  have "of_int d * 2 powi l \<le> (of_int n :: rat)"
  proof (cases "0 \<le> b")
    case True
    show ?thesis
    proof (cases "d * 2 ^ nat b \<le> n")
      case t: True
      then have "(of_int (d * 2 ^ nat b) :: rat) \<le> of_int n"
        by (simp only: of_int_le_iff)
      then show ?thesis using True t by (simp add: l_def power_int_nonneg_exp)
    next
      case False
      with True low show ?thesis by (simp add: l_def)
    qed
  next
    case False
    then have p: "(2::rat) powi b = inverse (2 ^ nat (- b))"
      by (rule powi_neg)
    show ?thesis
    proof (cases "d \<le> n * 2 ^ nat (- b)")
      case t: True
      then have "(of_int d :: rat) \<le> of_int (n * 2 ^ nat (- b))"
        by (simp only: of_int_le_iff)
      then show ?thesis using False t by (simp add: l_def p field_simps)
    next
      case f: False
      with False low show ?thesis by (simp add: l_def)
    qed
  qed
  moreover have "round_to_double s n d =
           (let e = max (l - 52) (- 1074);
                m = scaled_round n d e;
                e' = (if m = 2 ^ 53 then e + 1 else e);
                m' = (if m = 2 ^ 53 then 2 ^ 52 else m)
            in if 971 < e' then Infinity s else Finite s m' e')"
    using assms(1) unfolding round_to_double_def l_def b_def Let_def by simp
  ultimately show ?thesis by (rule that)
qed

lemma half_power_int: "(2::rat) powi (e - 1) = 2 powi e / 2"
  by (simp add: power_int_diff)

lemma scaled_round_err:
  assumes "0 < d"
  shows "\<bar>of_int (scaled_round n d e) * 2 powi e - of_int n / of_int d\<bar> \<le> (2::rat) powi (e - 1)"
proof -
  define q :: rat where "q = of_int n / of_int d"
  define p :: rat where "p = 2 powi e"
  have p: "0 < p" by (simp add: p_def zero_less_power_int)
  have "\<bar>of_int (nearest_even (q / p)) - q / p\<bar> \<le> 1 / 2"
    by (rule nearest_even_err)
  then have "\<bar>of_int (nearest_even (q / p)) - q / p\<bar> * p \<le> 1 / 2 * p"
    using p by (intro mult_right_mono) simp_all
  moreover have "\<bar>of_int (nearest_even (q / p)) - q / p\<bar> * p =
                 \<bar>of_int (nearest_even (q / p)) * p - q\<bar>"
  proof -
    have "\<bar>of_int (nearest_even (q / p)) - q / p\<bar> * p =
          \<bar>(of_int (nearest_even (q / p)) - q / p) * p\<bar>"
      using p by (simp add: abs_mult)
    also have "(of_int (nearest_even (q / p)) - q / p) * p = of_int (nearest_even (q / p)) * p - q"
      using p by (simp add: field_simps)
    finally show ?thesis .
  qed
  ultimately have e1: "\<bar>of_int (nearest_even (q / p)) * p - q\<bar> \<le> 1 / 2 * p"
    by simp
  have sr: "scaled_round n d e = nearest_even (q / p)"
    unfolding q_def p_def by (rule scaled_round_nearest [OF assms])
  have "(2::rat) powi (e - 1) = 1 / 2 * p"
    by (simp add: half_power_int p_def)
  with e1 show ?thesis
    unfolding sr q_def [symmetric] p_def [symmetric] by simp
qed

text \<open>
  The float that \<open>round_to_double\<close> returns is within half a unit of its last place of
  the quotient.
\<close>

lemma round_to_double_err:
  assumes "0 < n" and "0 < d" and "round_to_double s n d = Finite s' m e"
  shows "\<bar>of_int m * 2 powi e - of_int n / of_int d\<bar> \<le> (2::rat) powi (e - 1)"
proof -
  obtain l where
    r: "round_to_double s n d =
           (let e = max (l - 52) (- 1074);
                m = scaled_round n d e;
                e' = (if m = 2 ^ 53 then e + 1 else e);
                m' = (if m = 2 ^ 53 then 2 ^ 52 else m)
            in if 971 < e' then Infinity s else Finite s m' e')"
    by (rule round_to_double_unfold [OF assms(1,2)])
  define e0 where "e0 = max (l - 52) (- 1074)"
  define m0 where "m0 = scaled_round n d e0"
  have err: "\<bar>of_int m0 * 2 powi e0 - of_int n / of_int d\<bar> \<le> (2::rat) powi (e0 - 1)"
    unfolding m0_def by (rule scaled_round_err [OF assms(2)])
  show ?thesis
  proof (cases "m0 = 2 ^ 53")
    case True
    with r assms(3) have me: "m = 2 ^ 52" "e = e0 + 1"
      by (auto simp: Let_def e0_def [symmetric] m0_def [symmetric] split: if_splits)
    have "(of_int m :: rat) * 2 powi e = of_int m0 * 2 powi e0"
      using True me by (simp add: power_int_add)
    moreover have "(2::rat) powi (e0 - 1) \<le> 2 powi (e - 1)"
      using me by (intro power_int_increasing) simp_all
    ultimately show ?thesis using err by simp
  next
    case False
    with r assms(3) have "m = m0" "e = e0"
      by (auto simp: Let_def e0_def [symmetric] m0_def [symmetric] split: if_splits)
    with err show ?thesis by simp
  qed
qed

text \<open>Below \<open>2\<^sup>4\<^sup>8\<close> the unit of the last place is at most \<open>2\<^sup>-\<^sup>4\<close>.\<close>

lemma round_to_double_small:
  assumes "0 < n" and "0 < d" and "(of_int n :: rat) / of_int d < 2 ^ 48"
  shows "\<exists>m e. round_to_double s n d = Finite s m e \<and> e \<le> - 4"
proof -
  obtain l where l: "of_int d * 2 powi l \<le> (of_int n :: rat)" and
    r: "round_to_double s n d =
           (let e = max (l - 52) (- 1074);
                m = scaled_round n d e;
                e' = (if m = 2 ^ 53 then e + 1 else e);
                m' = (if m = 2 ^ 53 then 2 ^ 52 else m)
            in if 971 < e' then Infinity s else Finite s m' e')"
    by (rule round_to_double_unfold [OF assms(1,2)])
  have "(2::rat) powi l \<le> of_int n / of_int d"
    using l assms(2) by (simp add: field_simps)
  also have "\<dots> < 2 powi 48" using assms(3) by simp
  finally have "l < 48"
    by (rule power_int_le_imp_less_exp [rotated]) simp_all
  then have "max (l - 52) (- 1074) \<le> - 5" by simp
  then show ?thesis
    unfolding r Let_def by auto
qed

lemma round_to_double_sign:
  "round_to_double s n d = Finite s' m e \<Longrightarrow> round_to_double t n d = Finite t m e"
  by (auto simp: round_to_double_def Let_def split: if_splits)

lemma fraction_value:
  assumes "fraction m e = (n, d)"
  shows "0 < d" and "(of_int n :: rat) / of_int d = of_int m * 2 powi e"
proof -
  show "0 < d" using assms by (auto simp: fraction_def split: if_splits)
  show "(of_int n :: rat) / of_int d = of_int m * 2 powi e"
  proof (cases "0 \<le> e")
    case True
    with assms show ?thesis by (auto simp: fraction_def power_int_nonneg_exp)
  next
    case False
    then have p: "(2::rat) powi e = inverse (2 ^ nat (- e))"
      by (rule powi_neg)
    from assms False show ?thesis
      unfolding p by (auto simp: fraction_def field_simps)
  qed
qed

text \<open>The digits of an integer, and the layout of a numeral with one decimal place.\<close>

lemma str_nat_small: "n < 10 \<Longrightarrow> str_nat n = [digit_char n]"
  by (simp add: str_nat.simps [of n])

lemma str_nat_large: "10 \<le> n \<Longrightarrow> str_nat n = str_nat (n div 10) @ [digit_char (n mod 10)]"
  by (simp add: str_nat.simps [of n])

lemma str_nat_length: "1 \<le> length (str_nat n)"
  by (cases "n < 10") (simp_all add: str_nat_small str_nat_large)

lemma digit_char_zero: "0 \<le> d \<Longrightarrow> d < 10 \<Longrightarrow> digit_char d = CHR ''0'' \<longleftrightarrow> d = 0"
proof -
  assume "0 \<le> d" "d < 10"
  then have "d = 0 \<or> d = 1 \<or> d = 2 \<or> d = 3 \<or> d = 4 \<or> d = 5 \<or> d = 6 \<or> d = 7 \<or> d = 8 \<or> d = 9"
    by presburger
  moreover have "digit_char 0 = CHR ''0''"
    by code_simp
  moreover have "list_all (\<lambda>d. digit_char d \<noteq> CHR ''0'') [1, 2, 3, 4, 5, 6, 7, 8, 9]"
    by code_simp
  ultimately show ?thesis
    by auto
qed

lemma str_nat_shift:
  assumes "0 < D"
  shows "str_nat (D * 10 ^ x) = str_nat D @ replicate x (CHR ''0'')"
proof (induction x)
  case 0
  show ?case by simp
next
  case (Suc x)
  have "0 < D * 10 ^ x" using assms by simp
  then have "10 \<le> D * 10 ^ Suc x" by simp
  from str_nat_large [OF this]
  have "str_nat (D * 10 ^ Suc x) = str_nat (D * 10 ^ x) @ [digit_char 0]"
    by simp
  also have "digit_char 0 = CHR ''0''"
    using digit_char_zero [of 0] by simp
  finally show ?case
    using Suc.IH by (simp add: replicate_append_same)
qed

lemma str_nat_bound: "0 < j \<Longrightarrow> n < 10 ^ j \<Longrightarrow> length (str_nat n) \<le> j"
proof (induction n arbitrary: j rule: str_nat.induct)
  case (1 n)
  show ?case
  proof (cases "n < 10")
    case True
    with "1.prems" show ?thesis by (simp add: str_nat_small)
  next
    case False
    then have "(10::int) ^ 1 < 10 ^ j" using "1.prems"(2) by simp
    then have "1 < j" by (simp only: power_strict_increasing_iff)
    then obtain i where j: "j = Suc i" "0 < i" by (cases j) auto
    have "n div 10 < 10 ^ i" using "1.prems"(2) j(1) by simp
    from "1.IH" [OF False j(2) this] False j(1) show ?thesis
      by (simp add: str_nat_large)
  qed
qed

text \<open>The digits without the trailing zeros.\<close>

lemma strip_last:
  "ds \<noteq> [] \<Longrightarrow> last ds \<noteq> CHR ''0'' \<Longrightarrow> rev (dropWhile (\<lambda>c. c = CHR ''0'') (rev ds)) = ds"
  by (cases ds rule: rev_cases) auto

lemma strip_zeros:
  "rev (dropWhile (\<lambda>c. c = CHR ''0'') (rev (ds @ replicate x (CHR ''0'')))) =
   rev (dropWhile (\<lambda>c. c = CHR ''0'') (rev ds))"
proof -
  have "dropWhile (\<lambda>c. c = CHR ''0'') (replicate x (CHR ''0'') @ ys) =
        dropWhile (\<lambda>c. c = CHR ''0'') ys" for ys
    by (induction x) simp_all
  then show ?thesis by simp
qed

lemma strip_fill:
  "rev (dropWhile (\<lambda>c. c = CHR ''0'') (rev ds)) @
     replicate (length ds - length (dropWhile (\<lambda>c. c = CHR ''0'') (rev ds))) (CHR ''0'') = ds"
proof -
  define t where "t = takeWhile (\<lambda>c. c = CHR ''0'') (rev ds)"
  define u where "u = dropWhile (\<lambda>c. c = CHR ''0'') (rev ds)"
  have r: "rev ds = t @ u" by (simp add: t_def u_def)
  have "\<forall>y \<in> set t. y = CHR ''0''"
    unfolding t_def by (auto dest: set_takeWhileD)
  then have t: "replicate (length t) (CHR ''0'') = t"
    by (rule replicate_length_same)
  from r have "length ds = length t + length u"
    by (metis length_append length_rev)
  moreover from r have "ds = rev u @ rev t"
    by (metis rev_append rev_rev_ident)
  moreover have "rev t = t"
    by (metis t rev_replicate)
  ultimately show ?thesis
    unfolding u_def [symmetric] using t by simp
qed

lemma format_one_decimal:
  assumes "0 < D" and "- 1 \<le> x" and "N = D * 10 ^ nat (x + 1)"
    and "x + int (length (str_nat D)) \<le> 16"
  shows "format_repr (rev (dropWhile (\<lambda>c. c = CHR ''0'') (rev (str_nat D))))
           (x + int (length (str_nat D))) =
         str_nat (N div 10) @ ''.'' @ str_nat (N mod 10)"
proof -
  define ds where "ds = str_nat D"
  define t where "t = rev (dropWhile (\<lambda>c. c = CHR ''0'') (rev ds))"
  have z: "str_nat 0 = ''0''"
    using digit_char_zero [of 0] by (simp add: str_nat_small)
  have tl: "length t \<le> length ds"
    using length_dropWhile_le [of "\<lambda>c. c = CHR ''0''" "rev ds"] by (simp add: t_def)
  have fill: "t @ replicate (length ds - length t) (CHR ''0'') = ds"
    using strip_fill [of ds] by (simp add: t_def)
  have L: "1 \<le> length ds" unfolding ds_def by (rule str_nat_length)
  then have dne: "ds \<noteq> []" by auto
  show ?thesis
  proof (cases "x = - 1")
    case True
    then have N: "N = D" using assms(3) by simp
    show ?thesis
    proof (cases "D < 10")
      case small: True
      then have ds: "ds = [digit_char D]" by (simp add: ds_def str_nat_small)
      have "digit_char D \<noteq> CHR ''0''"
        using digit_char_zero [of D] assms(1) small by simp
      then have "t = ds" by (simp add: t_def ds)
      moreover have "N div 10 = 0" "N mod 10 = D" using N small assms(1) by simp_all
      ultimately show ?thesis
        using True ds z unfolding ds_def [symmetric] t_def [symmetric]
        by (simp add: format_repr_def ds_def [symmetric])
    next
      case False
      then have big: "10 \<le> D" by simp
      define I where "I = D div 10"
      define dd where "dd = D mod 10"
      have ds: "ds = str_nat I @ [digit_char dd]"
        unfolding ds_def I_def dd_def by (rule str_nat_large [OF big])
      have dd: "0 \<le> dd" "dd < 10" by (simp_all add: dd_def)
      have LI: "1 \<le> length (str_nat I)" by (rule str_nat_length)
      then have ne: "str_nat I \<noteq> []" by auto
      have kk: "x + int (length ds) = int (length (str_nat I))"
        using True by (simp add: ds)
      have bound: "int (length (str_nat I)) \<le> 16"
        using assms(4) kk by (simp add: ds_def)
      have sd: "str_nat dd = [digit_char dd]" using dd by (simp add: str_nat_small)
      show ?thesis
      proof (cases "dd = 0")
        case nz: False
        then have "digit_char dd \<noteq> CHR ''0''"
          using digit_char_zero [OF dd] by simp
        then have "t = ds" unfolding t_def by (intro strip_last) (simp_all add: ds)
        then have "format_repr t (x + int (length ds)) = str_nat I @ ''.'' @ [digit_char dd]"
          unfolding kk using LI bound by (auto simp: format_repr_def ds)
        then show ?thesis
          unfolding ds_def [symmetric] t_def [symmetric] N I_def [symmetric] dd_def [symmetric] sd
          by simp
      next
        case zero: True
        then have d0: "digit_char dd = CHR ''0''" using digit_char_zero [OF dd] by simp
        define u where "u = rev (dropWhile (\<lambda>c. c = CHR ''0'') (rev (str_nat I)))"
        have "ds = str_nat I @ replicate 1 (CHR ''0'')" by (simp add: ds d0)
        then have tu: "t = u" unfolding t_def u_def by (simp only: strip_zeros)
        have ul: "length u \<le> length (str_nat I)"
          using length_dropWhile_le [of "\<lambda>c. c = CHR ''0''" "rev (str_nat I)"]
          by (simp add: u_def)
        have ufill: "u @ replicate (length (str_nat I) - length u) (CHR ''0'') = str_nat I"
          using strip_fill [of "str_nat I"] by (simp add: u_def)
        have "format_repr u (int (length (str_nat I))) =
                u @ replicate (length (str_nat I) - length u) (CHR ''0'') @ ''.0''"
          using LI ne bound ul by (simp add: format_repr_def nat_diff_distrib')
        then have "format_repr t (x + int (length ds)) = str_nat I @ ''.0''"
          unfolding kk tu using ufill by (metis append_assoc)
        then show ?thesis
          unfolding ds_def [symmetric] t_def [symmetric] N I_def [symmetric] dd_def [symmetric]
          using zero z by simp
      qed
    qed
  next
    case False
    with assms(2) have x: "0 \<le> x" by simp
    define y where "y = nat x"
    have xy: "x = int y" using x by (simp add: y_def)
    have N: "N = D * 10 ^ y * 10" using assms(3) x by (simp add: y_def nat_add_distrib)
    then have Nd: "N div 10 = D * 10 ^ y" "N mod 10 = 0" by simp_all
    have sI: "str_nat (N div 10) = ds @ replicate y (CHR ''0'')"
      unfolding Nd ds_def by (rule str_nat_shift [OF assms(1)])
    have "format_repr t (x + int (length ds)) =
            t @ replicate (nat (x + int (length ds) - int (length t))) (CHR ''0'') @ ''.0''"
      using assms(4) L dne tl x by (simp add: format_repr_def ds_def [symmetric])
    also have "nat (x + int (length ds) - int (length t)) = (length ds - length t) + y"
      using tl by (simp add: xy)
    also have "t @ replicate ((length ds - length t) + y) (CHR ''0'') @ ''.0'' =
               (t @ replicate (length ds - length t) (CHR ''0'')) @ replicate y (CHR ''0'') @ ''.0''"
      by (simp add: replicate_add)
    also have "\<dots> = str_nat (N div 10) @ ''.0''"
      unfolding fill sI by simp
    finally show ?thesis
      unfolding ds_def [symmetric] t_def [symmetric] Nd(2) z by simp
  qed
qed

text \<open>
  The shortest decimal that converts back to a float obtained from a number of tenths is
  that number of tenths.
\<close>

lemma find_in: "List.find P xs = Some c \<Longrightarrow> c \<in> set xs \<and> P c"
  by (induction xs) (auto split: if_splits)

lemma find_append: "\<exists>x \<in> set xs. P x \<Longrightarrow> List.find P (xs @ ys) = List.find P xs"
  by (induction xs) auto

lemma candidates_snd: "c \<in> set (candidates n d p) \<Longrightarrow> snd c = decimal_point n d - p"
  by (auto simp: candidates_def Let_def split: if_splits prod.splits)

lemma candidates_tenths:
  assumes "decimal_point n d - p = - 1"
    and "N = (n * 10) div d \<or> N = (n * 10) div d + 1"
  shows "(N, - 1) \<in> set (candidates n d p)"
  using assms by (auto simp: candidates_def Let_def)

lemma decimal_to_double_ratio:
  assumes "- 1 \<le> x"
  shows "\<exists>a b. decimal_to_double s D x = round_to_double s a b \<and> 0 < b \<and>
           (0 < D \<longrightarrow> 0 < a) \<and>
           (of_int a :: rat) / of_int b = of_int (D * 10 ^ nat (x + 1)) / 10"
proof (cases "0 \<le> x")
  case True
  then have "nat (x + 1) = Suc (nat x)" by simp
  then have "decimal_to_double s D x = round_to_double s (D * 10 ^ nat x) 1 \<and> (0::int) < 1 \<and>
           (0 < D \<longrightarrow> 0 < D * 10 ^ nat x) \<and>
           (of_int (D * 10 ^ nat x) :: rat) / of_int 1 = of_int (D * 10 ^ nat (x + 1)) / 10"
    using True by (simp add: decimal_to_double_def)
  then show ?thesis by blast
next
  case False
  with assms have x: "x = - 1" by simp
  have "decimal_to_double s D x = round_to_double s D 10 \<and> (0::int) < 10 \<and>
           (0 < D \<longrightarrow> 0 < D) \<and>
           (of_int D :: rat) / of_int 10 = of_int (D * 10 ^ nat (x + 1)) / 10"
    by (simp add: decimal_to_double_def x)
  then show ?thesis by blast
qed


lemma float_repr_tenths_small:
  assumes "0 \<le> N" and "N < 10"
  shows "float_repr (round_to_double s N 10) = one_decimal s N"
proof -
  have "list_all (\<lambda>N. float_repr (round_to_double True N 10) = one_decimal True N \<and>
                      float_repr (round_to_double False N 10) = one_decimal False N)
          [0, 1, 2, 3, 4, 5, 6, 7, 8, 9]"
    by code_simp
  moreover from assms
  have "N = 0 \<or> N = 1 \<or> N = 2 \<or> N = 3 \<or> N = 4 \<or> N = 5 \<or> N = 6 \<or> N = 7 \<or> N = 8 \<or> N = 9"
    by presburger
  ultimately show ?thesis
    by (cases s) auto
qed

lemma float_repr_tenths_large:
  assumes "10 \<le> N" and "N \<le> 10 ^ 15"
  shows "float_repr (round_to_double s N 10) = one_decimal s N"
proof -
  define q :: rat where "q = of_int N / 10"
  have q1: "1 \<le> q" using assms(1) by (simp add: q_def)
  have "(of_int N :: rat) \<le> of_int (10 ^ 15)"
    using assms(2) by (simp only: of_int_le_iff)
  then have q2: "q \<le> 10 ^ 14" by (simp add: q_def)
  have Npos: "0 < N" using assms(1) by simp
  have "(of_int N :: rat) / of_int 10 < 2 ^ 48"
    using q2 by (simp add: q_def)
  from round_to_double_small [OF Npos _ this, of s] obtain m e where
    r: "round_to_double s N 10 = Finite s m e" and e: "e \<le> - 4"
    by auto
  from round_to_double_err [OF Npos _ r]
  have err: "\<bar>of_int m * 2 powi e - q\<bar> \<le> (2::rat) powi (e - 1)"
    by (simp add: q_def)
  define V :: rat where "V = of_int m * 2 powi e"
  have ulp: "(2::rat) powi e \<le> 1 / 16"
  proof -
    have "(2::rat) powi e \<le> 2 powi (- 4)"
      using e by (intro power_int_increasing) simp_all
    then show ?thesis by simp
  qed
  have half: "(2::rat) powi (e - 1) \<le> 1 / 32"
    using ulp by (simp add: half_power_int)
  have Vq: "\<bar>V - q\<bar> \<le> 1 / 32"
    using err half by (simp add: V_def)
  have Vlow: "31 / 32 \<le> V" and Vhigh: "V \<le> 10 ^ 14 + 1 / 32"
    using Vq q1 q2 by linarith+
  have mpos: "0 < m"
  proof (rule ccontr)
    assume "\<not> 0 < m"
    then have "(of_int m :: rat) \<le> 0" by simp
    moreover have "(0::rat) \<le> 2 powi e" by simp
    ultimately have "V \<le> 0" unfolding V_def by (rule mult_nonpos_nonneg)
    with Vlow show False by simp
  qed
  obtain n d where f: "fraction m e = (n, d)" by (cases "fraction m e") auto
  have d: "0 < d" and nd: "(of_int n :: rat) / of_int d = V"
    using fraction_value [OF f] by (simp_all add: V_def)
  have npos: "0 < n"
  proof (rule ccontr)
    assume "\<not> 0 < n"
    then have "(of_int n :: rat) \<le> 0" by simp
    then have "(of_int n :: rat) / of_int d \<le> 0"
      using d by (simp add: divide_nonpos_pos)
    with nd Vlow show False by simp
  qed
  define k where "k = decimal_point n d"
  have k: "0 \<le> k \<and> k \<le> 16"
  proof (cases "d \<le> n")
    case True
    have "(of_int (n div d) :: rat) \<le> of_int n / of_int d"
      using floor_divide_of_int_eq [of n d, where ?'a = rat] of_int_floor_le [of "of_int n / of_int d :: rat"]
      by simp
    also have "\<dots> < of_int (10 ^ 15)" using nd Vhigh by simp
    finally have "n div d < 10 ^ 15" by (simp only: of_int_less_iff)
    then have "length (str_nat (n div d)) \<le> 15"
      by (intro str_nat_bound) simp_all
    with True show ?thesis by (simp add: k_def decimal_point_def)
  next
    case False
    have "31 / 32 \<le> (of_int n :: rat) / of_int d" using nd Vlow by simp
    then have "(of_int (31 * d) :: rat) \<le> of_int (32 * n)"
      using d by (simp add: field_simps)
    then have "31 * d \<le> 32 * n" by (simp only: of_int_le_iff)
    then have dn: "d - 1 < 2 * n" using npos by simp
    have "(d - 1) div n < 2"
    proof (rule ccontr)
      assume "\<not> (d - 1) div n < 2"
      then have "2 \<le> (d - 1) div n" by simp
      then have "n * 2 \<le> n * ((d - 1) div n)"
        using npos by (intro mult_left_mono) simp_all
      moreover have "n * ((d - 1) div n) + (d - 1) mod n = d - 1"
        by (rule mult_div_mod_eq)
      moreover have "0 \<le> (d - 1) mod n" using npos by simp
      ultimately show False using dn by linarith
    qed
    then have "(d - 1) div n < 10" by simp
    then have "str_nat ((d - 1) div n) = [digit_char ((d - 1) div n)]"
      by (rule str_nat_small)
    with False show ?thesis by (simp add: k_def decimal_point_def)
  qed
  define p0 where "p0 = nat (k + 1)"
  have p0: "1 \<le> p0" "p0 \<le> 17" "int p0 = k + 1" using k by (auto simp: p0_def)
  define lo where "lo = (n * 10) div d"
  have lo: "of_int lo \<le> 10 * V" "10 * V < of_int lo + 1"
  proof -
    have "(of_int (n * 10) :: rat) / of_int d = 10 * V"
      unfolding nd [symmetric] by simp
    moreover have "\<lfloor>(of_int (n * 10) :: rat) / of_int d\<rfloor> = lo"
      unfolding lo_def by (rule floor_divide_of_int_eq)
    ultimately have "\<lfloor>10 * V\<rfloor> = lo" by simp
    then show "of_int lo \<le> 10 * V" "10 * V < of_int lo + 1"
      by linarith+
  qed
  have Nlo: "N = lo \<or> N = lo + 1"
  proof -
    have "\<bar>V - of_int N / 10\<bar> \<le> 1 / 32"
      using Vq by (simp only: q_def)
    then have "(of_int N :: rat) < of_int lo + 2" "(of_int lo :: rat) - 1 < of_int N"
      using lo by linarith+
    then have "(of_int N :: rat) < of_int (lo + 2)" "(of_int (lo - 1) :: rat) < of_int N"
      by simp_all
    then have "N < lo + 2" "lo - 1 < N" by (simp_all only: of_int_less_iff)
    then show ?thesis by auto
  qed
  define P where "P = (\<lambda>(D, x). 0 < D \<and> decimal_to_double False D x = Finite False m e)"
  have PN: "P (N, - 1)"
    using Npos round_to_double_sign [OF r, of False]
    by (simp add: P_def decimal_to_double_def)
  define xs where "xs = concat (map (candidates n d) (map int [1..<Suc p0]))"
  define ys where "ys = concat (map (candidates n d) (map int [Suc p0..<18]))"
  have "[1..<18] = [1..<Suc p0] @ [Suc p0..<18]"
    using p0 upt_add_eq_append [of 1 "Suc p0" "17 - p0"] by simp
  then have cs: "concat (map (candidates n d) (map int [1..<18])) = xs @ ys"
    by (simp add: xs_def ys_def)
  have "(N, - 1) \<in> set (candidates n d (int p0))"
    using Nlo p0(3) by (intro candidates_tenths) (simp_all add: k_def lo_def)
  then have Nxs: "(N, - 1) \<in> set xs"
    using p0(1) by (auto simp: xs_def)
  with PN have ex: "\<exists>c \<in> set xs. P c" by blast
  then have "List.find P xs \<noteq> None"
    unfolding find_None_iff by blast
  then obtain D x where fx: "List.find P xs = Some (D, x)" by auto
  from find_in [OF fx] have Dxs: "(D, x) \<in> set xs" and PD: "P (D, x)" by simp_all
  have found: "List.find P (concat (map (candidates n d) (map int [1..<18]))) = Some (D, x)"
    unfolding cs using find_append [OF ex] fx by simp
  have Dpos: "0 < D" and rt: "decimal_to_double False D x = Finite False m e"
    using PD by (simp_all add: P_def)
  have x: "- 1 \<le> x"
  proof -
    from Dxs obtain p where p: "p \<in> set [1..<Suc p0]" "(D, x) \<in> set (candidates n d (int p))"
      by (auto simp: xs_def)
    from candidates_snd [OF p(2)] have "x = k - int p" by (simp add: k_def)
    moreover from p(1) have "p \<le> p0" by auto
    then have "int p \<le> k + 1" unfolding p0(3) [symmetric] by simp
    ultimately show ?thesis by simp
  qed
  have ND: "N = D * 10 ^ nat (x + 1)"
  proof -
    from decimal_to_double_ratio [OF x, of False D] Dpos obtain a b where
      ab: "decimal_to_double False D x = round_to_double False a b" "0 < b" "0 < a"
          "(of_int a :: rat) / of_int b = of_int (D * 10 ^ nat (x + 1)) / 10"
      by auto
    from rt ab(1) have "round_to_double False a b = Finite False m e" by simp
    from round_to_double_err [OF ab(3) ab(2) this]
    have "\<bar>V - of_int (D * 10 ^ nat (x + 1)) / 10\<bar> \<le> (2::rat) powi (e - 1)"
      by (simp only: ab(4) V_def)
    with half have "\<bar>V - of_int (D * 10 ^ nat (x + 1)) / 10\<bar> \<le> 1 / 32" by simp
    moreover have "\<bar>V - of_int N / 10\<bar> \<le> 1 / 32"
      using Vq by (simp only: q_def)
    ultimately have "(of_int (D * 10 ^ nat (x + 1)) :: rat) - 1 < of_int N"
      "(of_int N :: rat) < of_int (D * 10 ^ nat (x + 1)) + 1"
      by linarith+
    then have "(of_int (D * 10 ^ nat (x + 1) - 1) :: rat) < of_int N"
      "(of_int N :: rat) < of_int (D * 10 ^ nat (x + 1) + 1)"
      by simp_all
    then have "D * 10 ^ nat (x + 1) - 1 < N" "N < D * 10 ^ nat (x + 1) + 1"
      by (simp_all only: of_int_less_iff)
    then show ?thesis by simp
  qed
  have sd: "shortest_decimal m e = (D, x)"
    unfolding shortest_decimal_def f using found by (simp add: P_def)
  have kk: "x + int (length (str_nat D)) \<le> 16"
  proof -
    have "N < 10 ^ 16" using assms(2) by simp
    then have "length (str_nat N) \<le> 16"
      by (intro str_nat_bound) simp_all
    then have "length (str_nat D) + nat (x + 1) \<le> 16"
      unfolding ND by (simp add: str_nat_shift [OF Dpos])
    then show ?thesis using x by simp
  qed
  have "float_repr (Finite s m e) =
          (if s then ''-'' else '''') @
          format_repr (rev (dropWhile (\<lambda>c. c = CHR ''0'') (rev (str_nat D))))
            (x + int (length (str_nat D)))"
    using mpos by (simp add: sd Let_def)
  also have "\<dots> = one_decimal s N"
    unfolding format_one_decimal [OF Dpos x ND kk] one_decimal_def ..
  finally show ?thesis
    unfolding r .
qed

lemma float_repr_round1:
  assumes "0 \<le> m" and "(of_int m :: rat) * 2 powi e < 10 ^ 14"
  shows "float_repr (round1 (Finite s m e)) =
           one_decimal s (nearest_even (10 * (of_int m * 2 powi e)))"
proof -
  define X :: rat where "X = of_int m * 2 powi e"
  define N where "N = nearest_even (10 * X)"
  obtain n d where f: "fraction m e = (n, d)" by (cases "fraction m e") auto
  have d: "0 < d" and nd: "(of_int n :: rat) / of_int d = X"
    using fraction_value [OF f] by (simp_all add: X_def)
  have "round_half_even (n * 10) d = nearest_even (of_int (n * 10) / of_int d)"
    by (rule round_half_even_nearest [OF d])
  also have "(of_int (n * 10) :: rat) / of_int d = 10 * X"
    unfolding nd [symmetric] by simp
  finally have rn: "round_half_even (n * 10) d = N" by (simp add: N_def)
  have r1: "round1 (Finite s m e) = round_to_double s N 10"
    by (simp add: f rn decimal_to_double_def)
  have X0: "0 \<le> X"
    unfolding X_def using assms(1) by (intro mult_nonneg_nonneg) simp_all
  then have N0: "0 \<le> N"
    unfolding N_def by (intro nearest_even_nonneg) simp
  have "\<bar>of_int N - 10 * X\<bar> \<le> 1 / 2"
    unfolding N_def by (rule nearest_even_err)
  moreover have "10 * X < 1000000000000000" using assms(2) by (simp add: X_def)
  ultimately have "(of_int N :: rat) < 1000000000000001"
    by linarith
  then have "(of_int N :: rat) < of_int 1000000000000001" by simp
  then have "N < 1000000000000001" by (simp only: of_int_less_iff)
  then have N1: "N \<le> 10 ^ 15" by simp
  have "float_repr (round_to_double s N 10) = one_decimal s N"
  proof (cases "N < 10")
    case True
    with N0 show ?thesis by (intro float_repr_tenths_small)
  next
    case False
    with N1 show ?thesis by (intro float_repr_tenths_large) simp_all
  qed
  then show ?thesis
    unfolding r1 N_def X_def .
qed

text \<open>
  C8. For every record whose sequence is a string, \<^verbatim>\<open>__str__\<close> returns four lines, and the
  line \<^verbatim>\<open>Value\<close> shows the target value rounded to one decimal place when it is set, zero
  included, and the word None when it is not. The test of \<^verbatim>\<open>__str__\<close> on the truth value
  skips the rounding of a zero, which is printed as 0.0 or -0.0 either way. For a target
  value \<open>(-1)\<^sup>s \<sqdot> m \<sqdot> 2\<^sup>e\<close> below \<open>10\<^sup>1\<^sup>4\<close> in magnitude the line shows the numeral of
  \<open>(-1)\<^sup>s \<sqdot> N / 10\<close>, where \<open>N\<close> is the integer nearest to \<open>10 \<sqdot> m \<sqdot> 2\<^sup>e\<close>, the even one at a
  tie: 2.56789 is shown as 2.6, 0.25 as 0.2, 0.75 as 0.8 and -0.01 as -0.0.
\<close>

theorem record_str_value_line:
  assumes "sequence r = Some sq"
  shows "record_str r =
     Inr (''ID: '' @ format_str (identifier r) @ ''\<newline>'' @
          ''Value: '' @
            (case target_value r of None \<Rightarrow> ''None'' | Some v \<Rightarrow> float_repr (round1 v)) @
            ''\<newline>'' @
          ''Description: '' @ format_str (description r) @ ''\<newline>'' @
          ''Sequence length: '' @ str_int (int (length sq)) @ ''\<newline>'') \<and>
   (\<forall>s m e. target_value r = Some (Finite s m e) \<longrightarrow> 0 \<le> m \<longrightarrow>
      (of_int m :: rat) * 2 powi e < 10 ^ 14 \<longrightarrow>
        record_str r =
          Inr (''ID: '' @ format_str (identifier r) @ ''\<newline>'' @
               ''Value: '' @ one_decimal s (nearest_even (10 * (of_int m * 2 powi e))) @
                 ''\<newline>'' @
               ''Description: '' @ format_str (description r) @ ''\<newline>'' @
               ''Sequence length: '' @ str_int (int (length sq)) @ ''\<newline>''))"
proof -
  have general: "record_str r =
     Inr (''ID: '' @ format_str (identifier r) @ ''\<newline>'' @
          ''Value: '' @
            (case target_value r of None \<Rightarrow> ''None'' | Some v \<Rightarrow> float_repr (round1 v)) @
            ''\<newline>'' @
          ''Description: '' @ format_str (description r) @ ''\<newline>'' @
          ''Sequence length: '' @ str_int (int (length sq)) @ ''\<newline>'')"
  proof (cases "target_value r")
    case None
    then show ?thesis using assms by (simp add: record_str_def truthy_def format_float_def)
  next
    case (Some v)
    show ?thesis
    proof (cases "float_bool v")
      case True
      then show ?thesis using assms Some by (simp add: record_str_def truthy_def format_float_def)
    next
      case False
      then obtain s e where "v = Finite s 0 e"
        by (cases v) auto
      then show ?thesis
        using assms Some False round1_zero [of s e]
        by (simp add: record_str_def truthy_def format_float_def del: float_repr.simps round1.simps)
    qed
  qed
  have "record_str r =
          Inr (''ID: '' @ format_str (identifier r) @ ''\<newline>'' @
               ''Value: '' @ one_decimal s (nearest_even (10 * (of_int m * 2 powi e))) @
                 ''\<newline>'' @
               ''Description: '' @ format_str (description r) @ ''\<newline>'' @
               ''Sequence length: '' @ str_int (int (length sq)) @ ''\<newline>'')"
    if "target_value r = Some (Finite s m e)" "0 \<le> m" "(of_int m :: rat) * 2 powi e < 10 ^ 14"
    for s m e
    unfolding general that(1) option.case float_repr_round1 [OF that(2,3)] ..
  with general show ?thesis by blast
qed

theorem record_str_value_line_witness:
  "sequence \<lparr>identifier = Some ''Id1'', target_value = Some (Finite False 5782374223564211 (- 51)),
             description = Some ''My description'', sequence = Some ''ACGT''\<rparr> = Some ''ACGT'' \<and>
   (0::int) \<le> 5782374223564211 \<and>
   (of_int 5782374223564211 :: rat) * 2 powi (- 51) < 10 ^ 14 \<and>
   float_value (Finite False 5782374223564211 (- 51)) = Some (5782374223564211 / 2251799813685248) \<and>
   record_str \<lparr>identifier = Some ''Id1'', target_value = Some (Finite False 5782374223564211 (- 51)),
               description = Some ''My description'', sequence = Some ''ACGT''\<rparr> =
     Inr ''ID: Id1\<newline>Value: 2.6\<newline>Description: My description\<newline>Sequence length: 4\<newline>'' \<and>
   record_str \<lparr>identifier = Some ''Id1'', target_value = Some (Finite False 4503599627370496 (- 54)),
               description = Some ''My description'', sequence = Some ''ACGT''\<rparr> =
     Inr ''ID: Id1\<newline>Value: 0.2\<newline>Description: My description\<newline>Sequence length: 4\<newline>'' \<and>
   record_str \<lparr>identifier = Some ''Id1'', target_value = Some (Finite False 6755399441055744 (- 53)),
               description = Some ''My description'', sequence = Some ''ACGT''\<rparr> =
     Inr ''ID: Id1\<newline>Value: 0.8\<newline>Description: My description\<newline>Sequence length: 4\<newline>'' \<and>
   record_str \<lparr>identifier = Some ''Id1'', target_value = Some (Finite True 5764607523034235 (- 59)),
               description = Some ''My description'', sequence = Some ''ACGT''\<rparr> =
     Inr ''ID: Id1\<newline>Value: -0.0\<newline>Description: My description\<newline>Sequence length: 4\<newline>'' \<and>
   record_str \<lparr>identifier = Some ''Id1'', target_value = Some (Finite False 0 (- 1074)),
               description = Some ''My description'', sequence = Some ''ACGT''\<rparr> =
     Inr ''ID: Id1\<newline>Value: 0.0\<newline>Description: My description\<newline>Sequence length: 4\<newline>'' \<and>
   record_str \<lparr>identifier = Some ''Id1'', target_value = None,
               description = Some ''My description'', sequence = Some ''ACGT''\<rparr> =
     Inr ''ID: Id1\<newline>Value: None\<newline>Description: My description\<newline>Sequence length: 4\<newline>''"
proof -
  have rounded: "record_str \<lparr>identifier = Some ''Id1'', target_value = Some (Finite s m e),
                   description = Some ''My description'', sequence = Some ''ACGT''\<rparr> =
      Inr (''ID: Id1\<newline>Value: '' @ t @ ''\<newline>Description: My description\<newline>Sequence length: 4\<newline>'')"
    if "0 \<le> m" "(of_int m :: rat) * 2 powi e < 10 ^ 14"
       "one_decimal s (nearest_even (10 * (of_int m * 2 powi e))) = t" for s m e t
  proof -
    let ?r = "\<lparr>identifier = Some ''Id1'', target_value = Some (Finite s m e),
               description = Some ''My description'', sequence = Some ''ACGT''\<rparr>"
    have a: "sequence ?r = Some ''ACGT''" by simp
    have l: "str_int (int (length ''ACGT'')) = ''4''" by code_simp
    have t: "target_value ?r = Some (Finite s m e)" by simp
    have "record_str ?r =
          Inr (''ID: '' @ format_str (identifier ?r) @ ''\<newline>'' @
               ''Value: '' @ one_decimal s (nearest_even (10 * (of_int m * 2 powi e))) @
                 ''\<newline>'' @
               ''Description: '' @ format_str (description ?r) @ ''\<newline>'' @
               ''Sequence length: '' @ str_int (int (length ''ACGT'')) @ ''\<newline>'')"
      by (rule record_str_value_line [OF a, THEN conjunct2, rule_format, OF t that(1,2)])
    then show ?thesis
      unfolding that(3) l by (simp add: format_str_def)
  qed
  have a: "sequence \<lparr>identifier = Some ''Id1'',
             target_value = Some (Finite False 5782374223564211 (- 51)),
             description = Some ''My description'', sequence = Some ''ACGT''\<rparr> = Some ''ACGT''"
    by simp
  have b: "(0::int) \<le> 5782374223564211" by simp
  have c: "(of_int 5782374223564211 :: rat) * 2 powi (- 51) < 10 ^ 14" by code_simp
  have v: "float_value (Finite False 5782374223564211 (- 51)) =
             Some (5782374223564211 / 2251799813685248)"
    by code_simp
  have t1: "one_decimal False (nearest_even (10 * (of_int 5782374223564211 * 2 powi (- 51)))) = ''2.6''"
    by code_simp
  have c2: "(of_int 4503599627370496 :: rat) * 2 powi (- 54) < 10 ^ 14" by code_simp
  have t2: "one_decimal False (nearest_even (10 * (of_int 4503599627370496 * 2 powi (- 54)))) = ''0.2''"
    by code_simp
  have c3: "(of_int 6755399441055744 :: rat) * 2 powi (- 53) < 10 ^ 14" by code_simp
  have t3: "one_decimal False (nearest_even (10 * (of_int 6755399441055744 * 2 powi (- 53)))) = ''0.8''"
    by code_simp
  have c4: "(of_int 5764607523034235 :: rat) * 2 powi (- 59) < 10 ^ 14" by code_simp
  have t4: "one_decimal True (nearest_even (10 * (of_int 5764607523034235 * 2 powi (- 59)))) = ''-0.0''"
    by code_simp
  have c5: "(of_int 0 :: rat) * 2 powi (- 1074) < 10 ^ 14" by simp
  have t5: "one_decimal False (nearest_even (10 * (of_int 0 * 2 powi (- 1074)))) = ''0.0''"
    by code_simp
  have n: "record_str \<lparr>identifier = Some ''Id1'', target_value = None,
               description = Some ''My description'', sequence = Some ''ACGT''\<rparr> =
     Inr ''ID: Id1\<newline>Value: None\<newline>Description: My description\<newline>Sequence length: 4\<newline>''"
  proof -
    let ?r = "\<lparr>identifier = Some ''Id1'', target_value = None,
               description = Some ''My description'', sequence = Some ''ACGT''\<rparr>"
    have s: "sequence ?r = Some ''ACGT''" by simp
    have l: "str_int (int (length ''ACGT'')) = ''4''" by code_simp
    from record_str_value_line [OF s, THEN conjunct1] show ?thesis
      unfolding l by (simp add: format_str_def)
  qed
  show ?thesis
    using a b c v rounded [OF b c t1] rounded [OF _ c2 t2] rounded [OF _ c3 t3]
      rounded [OF _ c4 t4] rounded [OF _ c5 t5] n
    by simp
qed

end
